theory Spec2Isabelle
  imports Main "HOL-Library.Sublist"
begin

section \<open>Data model of the link checker (src/src/linkChecker.ts)\<close>

text \<open>
  The class \<open>LinkChecker\<close> keeps five mutable fields: \<open>visited\<close> (a JavaScript
  \<open>Set\<close> of strings, which iterates in insertion order and is therefore a list without
  repetitions here), \<open>brokenLinks\<close>, \<open>isRunning\<close>, \<open>queue\<close> and \<open>activePromises\<close>.
  Its options are fixed by the constructor. Only the options that steer the control flow
  are kept: \<open>headers\<close>, \<open>timeout\<close>, \<open>retryDelay\<close> and \<open>domainSpecificConfig\<close> are handed
  to \<open>fetch\<close> and \<open>setTimeout\<close>, which belong to the environment.
\<close>

record BrokenLink =
  url :: string
  reason :: string
  parentUrl :: "string option"

record QueueItem =
  item_url :: string
  item_parentUrl :: "string option"
  isRecursive :: bool

record LinkCheckerOptions =
  ignoreLinks :: "string list"
  concurrency :: int
  retries :: int

record LinkCheckerResult =
  linksVisited :: "string list"
  result_brokenLinks :: "BrokenLink list"

text \<open>
  The object \<open>fetch\<close> resolves with. \<open>final_url\<close> is \<open>response.url\<close> (the URL after
  the redirects the HTTP layer followed), \<open>content_type\<close> is
  \<open>response.headers.get("content-type")\<close>. \<open>body\<close> stands for \<open>await response.text()\<close>
  followed by \<open>cheerio.load\<close>: \<open>Inl msg\<close> when reading the body rejects with message
  \<open>msg\<close>, otherwise the values of the \<open>href\<close> attributes of the document's \<open>a\<close>
  elements in document order, which is what
  \<open>$("a").map((_, a) => $(a).attr("href")).get()\<close> yields (cheerio drops the elements
  that have no such attribute).
\<close>

record Response =
  status :: int
  redirected :: bool
  final_url :: string
  content_type :: "string option"
  body :: "string + string list"

datatype FetchOutcome = Responded Response | Rejected string

text \<open>The nine notification channels of \<open>events.ts\<close>, with their payloads.\<close>

datatype Event =
    Start string
  | Complete "string list" "BrokenLink list"
  | Stopped
  | LinkStart string "string option"
  | LinkSuccess string int "string option"
  | LinkRedirect string string "string option"
  | LinkError string "int option" "string option" "string option"
  | Progress nat nat
  | Retry string int string "string option"

text \<open>
  The library functions the code calls, as parameters of the model:
  \<open>resolveHref href base\<close> is \<open>new URL(href, base).href\<close> (\<open>None\<close> when the constructor
  throws), \<open>originOf u\<close> is \<open>new URL(u).origin\<close> and \<open>regexTest pattern u\<close> is
  \<open>new RegExp(pattern).test(u)\<close> (\<open>Inl msg\<close> when the constructor throws an error with
  message \<open>msg\<close>).
\<close>

record Platform =
  resolveHref :: "string \<Rightarrow> string \<Rightarrow> string option"
  originOf :: "string \<Rightarrow> string + string"
  regexTest :: "string \<Rightarrow> string \<Rightarrow> string + bool"

section \<open>String helpers\<close>

definition startsWith :: "string \<Rightarrow> string \<Rightarrow> bool" where
  "startsWith s p = prefix p s"

fun str_includes :: "string \<Rightarrow> string \<Rightarrow> bool" where
  "str_includes [] p = (p = [])"
| "str_includes (c # s) p = (if prefix p (c # s) then True else str_includes s p)"

text \<open>The decimal rendering of a number in a template literal.\<close>

fun digits :: "nat \<Rightarrow> string" where
  "digits n = (if n < 10 then [''0123456789'' ! n]
               else digits (n div 10) @ [''0123456789'' ! (n mod 10)])"

definition numberToString :: "int \<Rightarrow> string" where
  "numberToString n = (if n < 0 then CHR ''-'' # digits (nat (- n)) else digits (nat n))"

section \<open>extractLinks and shouldIgnore\<close>

text \<open>
  \<open>extractLinks\<close> keeps an href when it is non-empty and does not start with \<open>#\<close>, then
  resolves it against \<open>baseUrl\<close> and keeps the result when it starts with \<open>http\<close>; a
  failing resolution yields \<open>null\<close>, which the last filter removes.
\<close>

definition resolveOne :: "Platform \<Rightarrow> string \<Rightarrow> string \<Rightarrow> string option" where
  "resolveOne P baseUrl href =
     (case resolveHref P href baseUrl of
        None \<Rightarrow> None
      | Some resolvedUrl \<Rightarrow> if startsWith resolvedUrl ''http'' then Some resolvedUrl else None)"

definition extractLinks :: "Platform \<Rightarrow> string list \<Rightarrow> string \<Rightarrow> string list" where
  "extractLinks P hrefs baseUrl =
     List.map_filter (resolveOne P baseUrl)
       (filter (\<lambda>href. href \<noteq> [] \<and> \<not> startsWith href ''#'') hrefs)"

text \<open>
  \<open>ignoreLinks.some(ignore => new RegExp(ignore).test(url))\<close>: the patterns are tried in
  order, the first match ends the search, and a pattern that does not compile throws.
\<close>

fun someMatch :: "Platform \<Rightarrow> string list \<Rightarrow> string \<Rightarrow> string + bool" where
  "someMatch P [] u = Inr False"
| "someMatch P (ignore # rest) u =
     (case regexTest P ignore u of
        Inl msg \<Rightarrow> Inl msg
      | Inr matched \<Rightarrow> if matched then Inr True else someMatch P rest u)"

definition shouldIgnore :: "Platform \<Rightarrow> LinkCheckerOptions \<Rightarrow> string \<Rightarrow> string + bool" where
  "shouldIgnore P opts u = someMatch P (ignoreLinks opts) u"

section \<open>fetchWithRetry\<close>

text \<open>
  What one call of \<open>fetchWithRetry\<close> does, in order: \<open>Attempt i\<close> is the \<open>i\<close>-th run of the
  inner \<open>try\<close> block (URL parsing and \<open>fetch\<close>), \<open>Emit\<close> a notification, \<open>Sleep\<close> one
  \<open>setTimeout\<close> of \<open>retryDelay\<close>. The environment is \<open>net\<close>: \<open>net i\<close> is how attempt \<open>i\<close>
  ends. The result is \<open>Inr response\<close>, or \<open>Inl msg\<close> when the call throws an error with
  message \<open>msg\<close>.
\<close>

datatype Effect = Attempt nat | Emit Event | Sleep

function fetchLoop ::
  "LinkCheckerOptions \<Rightarrow> string \<Rightarrow> string option \<Rightarrow> (nat \<Rightarrow> FetchOutcome) \<Rightarrow> nat \<Rightarrow>
   string option \<Rightarrow> (string + Response) \<times> Effect list" where
  "fetchLoop opts u parent net i lastError =
     (if int i < retries opts then
        (case net i of
           Responded response \<Rightarrow> (Inr response, [Attempt i])
         | Rejected msg \<Rightarrow>
             (if int i < retries opts - 1 then
                (case fetchLoop opts u parent net (Suc i) (Some msg) of
                   (res, eff) \<Rightarrow>
                     (res, Attempt i # Emit (Retry u (int i + 1) msg parent) # Sleep # eff))
              else
                (case fetchLoop opts u parent net (Suc i) (Some msg) of
                   (res, eff) \<Rightarrow> (res, Attempt i # eff))))
      else
        (case lastError of
           Some msg \<Rightarrow> (Inl msg, [])
         | None \<Rightarrow> (Inl ''Failed after multiple retries'', [])))"
  by pat_completeness auto
termination
  by (relation "measure (\<lambda>(opts, u, parent, net, i, lastError). nat (retries opts - int i))") auto

declare fetchLoop.simps [simp del]

definition fetchWithRetry ::
  "LinkCheckerOptions \<Rightarrow> string \<Rightarrow> string option \<Rightarrow> (nat \<Rightarrow> FetchOutcome) \<Rightarrow>
   (string + Response) \<times> Effect list" where
  "fetchWithRetry opts u parent net = fetchLoop opts u parent net 0 None"

definition attempts :: "Effect list \<Rightarrow> nat" where
  "attempts eff = length (filter (\<lambda>e. case e of Attempt i \<Rightarrow> True | _ \<Rightarrow> False) eff)"

definition delays :: "Effect list \<Rightarrow> nat" where
  "delays eff = length (filter (\<lambda>e. e = Sleep) eff)"

definition notifications :: "Effect list \<Rightarrow> Event list" where
  "notifications eff = List.map_filter (\<lambda>e. case e of Emit ev \<Rightarrow> Some ev | _ \<Rightarrow> None) eff"

section \<open>The instance and its asynchronous calls\<close>

text \<open>
  JavaScript runs one turn at a time: a piece of code between two \<open>await\<close>s runs to its
  end before anything else touches the instance. A call of \<open>checkSingleUrl\<close> is suspended
  at \<open>await this.fetchWithRetry(url)\<close> (\<open>Fetching\<close>) or at \<open>await response.text()\<close>
  (\<open>ReadingText\<close>); when its body has ended it is \<open>Completed\<close>, and once the callback of
  \<open>finally\<close> has run it is \<open>Finalized\<close>. A promise is named by the index of its call in
  \<open>tasks\<close>.
\<close>

datatype Phase = Fetching | ReadingText Response | Completed | Finalized

record Task =
  task_url :: string
  task_parentUrl :: "string option"
  task_isRecursive :: bool
  phase :: Phase

text \<open>
  What holds when a notification reaches a listener: the payload, the fields of the
  instance at that moment (the test "should respect concurrency limits" reads
  \<open>activePromises.size\<close> from a listener of \<open>link:start\<close>), and \<open>inFlightAt\<close>, the
  number of calls of \<open>checkSingleUrl\<close> that are suspended at an \<open>await\<close> at that moment:
  the checks in flight, whether or not \<open>activePromises\<close> still holds their promises.
\<close>

record Emission =
  event :: Event
  activeSize :: nat
  visitedAt :: "string list"
  inFlightAt :: nat

text \<open>
  The first five fields are the fields of the class. \<open>tasks\<close> holds the calls of
  \<open>checkSingleUrl\<close>, \<open>awaiting\<close> the calls of \<open>processQueue\<close> suspended at
  \<open>await Promise.race(...)\<close> (each with the promises it races), \<open>returning\<close> counts the calls
  of \<open>run\<close> whose \<open>processQueue\<close> has ended and which have not resumed yet, \<open>spinning\<close> says
  that a turn never ends. \<open>emitted\<close>, \<open>addCalls\<close> (the arguments of the calls of
  \<open>visited.add\<close> since the last \<open>visited.clear()\<close>) and \<open>returned\<close> (the values the calls of
  \<open>run\<close> resolved with) only record what happened.
\<close>

record State =
  visited :: "string list"
  brokenLinks :: "BrokenLink list"
  isRunning :: bool
  queue :: "QueueItem list"
  activePromises :: "nat list"
  tasks :: "Task list"
  awaiting :: "nat list list"
  returning :: nat
  spinning :: bool
  emitted :: "Emission list"
  addCalls :: "string list"
  returned :: "LinkCheckerResult list"

definition newLinkChecker :: State where
  "newLinkChecker =
     \<lparr>visited = [], brokenLinks = [], isRunning = False, queue = [], activePromises = [],
      tasks = [], awaiting = [], returning = 0, spinning = False, emitted = [],
      addCalls = [], returned = []\<rparr>"

fun busy :: "Phase \<Rightarrow> bool" where
  "busy Fetching = True"
| "busy (ReadingText response) = True"
| "busy Completed = False"
| "busy Finalized = False"

definition inFlight :: "State \<Rightarrow> nat" where
  "inFlight st = length (filter (\<lambda>t. busy (phase t)) (tasks st))"

definition emit :: "Event \<Rightarrow> State \<Rightarrow> State" where
  "emit e st =
     st\<lparr>emitted := emitted st @
        [\<lparr>event = e, activeSize = length (activePromises st), visitedAt = visited st,
          inFlightAt = inFlight st\<rparr>]\<rparr>"

fun emitAll :: "Event list \<Rightarrow> State \<Rightarrow> State" where
  "emitAll [] st = st"
| "emitAll (e # es) st = emitAll es (emit e st)"

definition visited_add :: "string \<Rightarrow> State \<Rightarrow> State" where
  "visited_add u st =
     st\<lparr>visited := (if u \<in> set (visited st) then visited st else visited st @ [u]),
        addCalls := addCalls st @ [u]\<rparr>"

definition pushBroken :: "BrokenLink \<Rightarrow> State \<Rightarrow> State" where
  "pushBroken b st = st\<lparr>brokenLinks := brokenLinks st @ [b]\<rparr>"

definition pushQueue :: "QueueItem \<Rightarrow> State \<Rightarrow> State" where
  "pushQueue item st = st\<lparr>queue := queue st @ [item]\<rparr>"

subsection \<open>checkSingleUrl\<close>

definition emitProgress :: "State \<Rightarrow> State" where
  "emitProgress st = emit (Progress (length (visited st)) (length (brokenLinks st))) st"

text \<open>The \<open>catch\<close> block of \<open>checkSingleUrl\<close>.\<close>

definition catchBlock :: "string \<Rightarrow> string option \<Rightarrow> string \<Rightarrow> State \<Rightarrow> State" where
  "catchBlock u parent msg st =
     pushBroken \<lparr>url = u, reason = ''Error: '' @ msg, parentUrl = parent\<rparr>
       (emit (LinkError u None (Some msg) parent) st)"

text \<open>
  The turn that follows \<open>await this.fetchWithRetry(url)\<close>, up to the next \<open>await\<close> or the
  end of the body.
\<close>

definition afterFetch ::
  "string \<Rightarrow> string option \<Rightarrow> bool \<Rightarrow> string + Response \<Rightarrow> State \<Rightarrow> Phase \<times> State" where
  "afterFetch u parent isRec res st =
     (case res of
        Inl msg \<Rightarrow> (Completed, emitProgress (catchBlock u parent msg st))
      | Inr response \<Rightarrow>
          (let statusCode = status response in
           if 200 \<le> statusCode \<and> statusCode < 300 then
             (let st1 = emit (LinkSuccess u statusCode parent) st in
              if isRec then
                (let contentType = (case content_type response of Some c \<Rightarrow> c | None \<Rightarrow> [])
                 in if str_includes contentType ''text/html'' then (ReadingText response, st1)
                    else (Completed, emitProgress st1))
              else (Completed, emitProgress st1))
           else if redirected response then
             (Completed, emitProgress (emit (LinkRedirect u (final_url response) parent) st))
           else
             (Completed,
              emitProgress
                (pushBroken
                   \<lparr>url = u, reason = ''Status code: '' @ numberToString statusCode,
                    parentUrl = parent\<rparr>
                   (emit (LinkError u (Some statusCode) None parent) st)))))"

text \<open>
  The loop \<open>for (let link of links)\<close>. It ends early when \<open>shouldIgnore\<close> or \<open>new URL\<close>
  throws; what was pushed before stays in the queue.
\<close>

fun enqueueLinks ::
  "Platform \<Rightarrow> LinkCheckerOptions \<Rightarrow> string \<Rightarrow> string \<Rightarrow> string list \<Rightarrow> State \<Rightarrow>
   string option \<times> State" where
  "enqueueLinks P opts u baseOrigin [] st = (None, st)"
| "enqueueLinks P opts u baseOrigin (link # links) st =
     (if link \<in> set (visited st) then enqueueLinks P opts u baseOrigin links st
      else
        (case shouldIgnore P opts link of
           Inl msg \<Rightarrow> (Some msg, st)
         | Inr ignored \<Rightarrow>
             if ignored then enqueueLinks P opts u baseOrigin links st
             else
               (case originOf P link of
                  Inl msg \<Rightarrow> (Some msg, st)
                | Inr linkOrigin \<Rightarrow>
                    enqueueLinks P opts u baseOrigin links
                      (pushQueue
                         \<lparr>item_url = link, item_parentUrl = Some u,
                          isRecursive = (linkOrigin = baseOrigin)\<rparr> st))))"

text \<open>The turn that follows \<open>await response.text()\<close>.\<close>

definition afterText ::
  "Platform \<Rightarrow> LinkCheckerOptions \<Rightarrow> string \<Rightarrow> string option \<Rightarrow> Response \<Rightarrow> State \<Rightarrow> State" where
  "afterText P opts u parent response st =
     (case body response of
        Inl msg \<Rightarrow> emitProgress (catchBlock u parent msg st)
      | Inr hrefs \<Rightarrow>
          (let links = extractLinks P hrefs u in
           case originOf P u of
             Inl msg \<Rightarrow> emitProgress (catchBlock u parent msg st)
           | Inr baseOrigin \<Rightarrow>
               (case enqueueLinks P opts u baseOrigin links st of
                  (Some msg, st1) \<Rightarrow> emitProgress (catchBlock u parent msg st1)
                | (None, st1) \<Rightarrow> emitProgress st1)))"

text \<open>
  \<open>let promise = this.checkSingleUrl(url, parentUrl, isRecursive).finally(...)\<close> followed by
  \<open>this.activePromises.add(promise)\<close>: the body of \<open>checkSingleUrl\<close> runs at once up to its
  first \<open>await\<close>, so \<open>link:start\<close> is emitted before the promise enters the set.
\<close>

definition beginCheck :: "QueueItem \<Rightarrow> State \<Rightarrow> State" where
  "beginCheck item st =
     (let st1 = (if isRunning st
                 then emit (LinkStart (item_url item) (item_parentUrl item)) st else st);
          promise = length (tasks st1)
      in st1\<lparr>tasks := tasks st1 @
                 [\<lparr>task_url = item_url item, task_parentUrl = item_parentUrl item,
                   task_isRecursive = isRecursive item,
                   phase = (if isRunning st then Fetching else Completed)\<rparr>],
              activePromises := activePromises st1 @ [promise]\<rparr>)"

subsection \<open>processQueue\<close>

text \<open>\<open>let item = this.queue.shift()\<close>: the item, and the instance after it.\<close>

definition front :: "State \<Rightarrow> QueueItem" where
  "front st = hd (queue st)"

definition shifted :: "State \<Rightarrow> State" where
  "shifted st = st\<lparr>queue := tl (queue st)\<rparr>"

text \<open>
  The inner \<open>while\<close> loop. \<open>Some msg\<close> is the message of the error \<open>shouldIgnore\<close> threw,
  which leaves \<open>processQueue\<close> and rejects \<open>run\<close>.
\<close>

function innerLoop ::
  "Platform \<Rightarrow> LinkCheckerOptions \<Rightarrow> State \<Rightarrow> string option \<times> State" where
  "innerLoop P opts st =
     (if isRunning st \<and> queue st \<noteq> [] \<and> int (length (activePromises st)) < concurrency opts
      then
        (if item_url (front st) \<in> set (visited (shifted st)) then innerLoop P opts (shifted st)
         else
           (case shouldIgnore P opts (item_url (front st)) of
              Inl msg \<Rightarrow> (Some msg, shifted st)
            | Inr ignored \<Rightarrow>
                if ignored then innerLoop P opts (shifted st)
                else
                  innerLoop P opts
                    (beginCheck (front st) (visited_add (item_url (front st)) (shifted st)))))
      else (None, st))"
  by pat_completeness auto
termination
  by (relation "measure (\<lambda>(P, opts, st). length (queue st))")
     (auto simp: shifted_def beginCheck_def visited_add_def emit_def Let_def)

declare innerLoop.simps [simp del]

text \<open>
  One turn of \<open>processQueue\<close>, from the head of the outer loop to the next \<open>await\<close> or to
  the end. When the inner loop has ended with no active promise, nothing is awaited and the
  outer condition is tested again on the same fields: if it holds, the inner condition
  fails as it just did, and the turn never ends (\<open>Spinning\<close>).
\<close>

datatype LoopStatus = Awaiting "nat list" | Finished | Spinning | Threw string

definition processQueue :: "Platform \<Rightarrow> LinkCheckerOptions \<Rightarrow> State \<Rightarrow> LoopStatus \<times> State" where
  "processQueue P opts st =
     (if isRunning st \<and> (queue st \<noteq> [] \<or> activePromises st \<noteq> []) then
        (case innerLoop P opts st of
           (Some msg, st1) \<Rightarrow> (Threw msg, st1)
         | (None, st1) \<Rightarrow>
             if activePromises st1 \<noteq> [] then (Awaiting (activePromises st1), st1)
             else if isRunning st1 \<and> queue st1 \<noteq> [] then (Spinning, st1)
             else (Finished, st1))
      else (Finished, st))"

subsection \<open>run and stop\<close>

text \<open>
  \<open>run\<close> up to its \<open>await this.processQueue()\<close>: \<open>Inl msg\<close> when it throws at once,
  otherwise how the first turn of \<open>processQueue\<close> ended.
\<close>

definition run ::
  "Platform \<Rightarrow> LinkCheckerOptions \<Rightarrow> string \<Rightarrow> State \<Rightarrow> (string + LoopStatus) \<times> State" where
  "run P opts u st =
     (if isRunning st then
        (Inl ''Link checker is already running. Call stop() first or create a new instance.'',
         st)
      else
        (let st1 = st\<lparr>visited := [], addCalls := [], brokenLinks := [], queue := [],
                      activePromises := [], isRunning := True\<rparr>;
             st2 = emit (Start u) st1;
             st3 = pushQueue \<lparr>item_url = u, item_parentUrl = None, isRecursive = True\<rparr> st2
         in case processQueue P opts st3 of (ls, st4) \<Rightarrow> (Inr ls, st4)))"

text \<open>The rest of \<open>run\<close>, after \<open>processQueue\<close> has ended.\<close>

definition finishRun :: "State \<Rightarrow> LinkCheckerResult \<times> State" where
  "finishRun st =
     (let st1 = (if isRunning st then emit (Complete (visited st) (brokenLinks st)) st else st);
          st2 = st1\<lparr>isRunning := False\<rparr>
      in (\<lparr>linksVisited = visited st2, result_brokenLinks = brokenLinks st2\<rparr>, st2))"

definition stop :: "State \<Rightarrow> State" where
  "stop st = (if isRunning st then emit Stopped (st\<lparr>isRunning := False, queue := []\<rparr>) else st)"

subsection \<open>Turns\<close>

text \<open>
  The turns of an instance. \<open>Run u\<close> and \<open>Stop\<close> are calls by the user; \<open>Resume k\<close> resumes
  the \<open>k\<close>-th suspended \<open>processQueue\<close>, which needs one of the promises it races to be
  settled; \<open>Finish\<close> resumes a \<open>run\<close>; \<open>FetchSettled p net\<close> ends the \<open>fetchWithRetry\<close> of
  call \<open>p\<close>, whose attempts ended as \<open>net\<close> says (\<open>fetchWithRetry\<close> reads no field of the
  instance; its \<open>retry\<close> notifications are recorded in this turn); \<open>TextSettled p\<close> ends
  \<open>response.text()\<close>; \<open>Finally p\<close> runs the callback of \<open>finally\<close>. Listeners are taken not
  to call back into the instance. \<open>None\<close>: the turn cannot happen in this state.
\<close>

datatype Action =
    Run string
  | Stop
  | Resume nat
  | Finish
  | FetchSettled nat "nat \<Rightarrow> FetchOutcome"
  | TextSettled nat
  | Finally nat

definition suspend :: "LoopStatus \<Rightarrow> State \<Rightarrow> State" where
  "suspend ls st =
     (case ls of
        Awaiting raced \<Rightarrow> st\<lparr>awaiting := awaiting st @ [raced]\<rparr>
      | Finished \<Rightarrow> st\<lparr>returning := returning st + 1\<rparr>
      | Spinning \<Rightarrow> st\<lparr>spinning := True\<rparr>
      | Threw msg \<Rightarrow> st)"

definition setPhase :: "nat \<Rightarrow> Phase \<Rightarrow> State \<Rightarrow> State" where
  "setPhase p ph st = st\<lparr>tasks := (tasks st)[p := (tasks st ! p)\<lparr>phase := ph\<rparr>]\<rparr>"

definition settled :: "State \<Rightarrow> nat \<Rightarrow> bool" where
  "settled st p = (p < length (tasks st) \<and> phase (tasks st ! p) = Finalized)"

definition step :: "Platform \<Rightarrow> LinkCheckerOptions \<Rightarrow> Action \<Rightarrow> State \<Rightarrow> State option" where
  "step P opts a st =
     (if spinning st then None
      else
        (case a of
           Run u \<Rightarrow>
             (case run P opts u st of
                (Inl msg, st1) \<Rightarrow> Some st1
              | (Inr ls, st1) \<Rightarrow> Some (suspend ls st1))
         | Stop \<Rightarrow> Some (stop st)
         | Resume k \<Rightarrow>
             (if k < length (awaiting st) \<and> list_ex (settled st) (awaiting st ! k) then
                (case processQueue P opts
                        (st\<lparr>awaiting := take k (awaiting st) @ drop (Suc k) (awaiting st)\<rparr>) of
                   (ls, st1) \<Rightarrow> Some (suspend ls st1))
              else None)
         | Finish \<Rightarrow>
             (if 0 < returning st then
                (case finishRun (st\<lparr>returning := returning st - 1\<rparr>) of
                   (res, st1) \<Rightarrow> Some (st1\<lparr>returned := returned st1 @ [res]\<rparr>))
              else None)
         | FetchSettled p net \<Rightarrow>
             (if p < length (tasks st) \<and> phase (tasks st ! p) = Fetching then
                (case fetchWithRetry opts (task_url (tasks st ! p)) None net of
                   (res, eff) \<Rightarrow>
                     (case afterFetch (task_url (tasks st ! p)) (task_parentUrl (tasks st ! p))
                             (task_isRecursive (tasks st ! p)) res
                             (emitAll (notifications eff) st) of
                        (ph, st1) \<Rightarrow> Some (setPhase p ph st1)))
              else None)
         | TextSettled p \<Rightarrow>
             (if p < length (tasks st) then
                (case phase (tasks st ! p) of
                   ReadingText response \<Rightarrow>
                     Some (setPhase p Completed
                             (afterText P opts (task_url (tasks st ! p))
                                (task_parentUrl (tasks st ! p)) response st))
                 | _ \<Rightarrow> None)
              else None)
         | Finally p \<Rightarrow>
             (if p < length (tasks st) \<and> phase (tasks st ! p) = Completed then
                Some (setPhase p Finalized
                        (st\<lparr>activePromises := removeAll p (activePromises st)\<rparr>))
              else None)))"

fun exec :: "Platform \<Rightarrow> LinkCheckerOptions \<Rightarrow> Action list \<Rightarrow> State \<Rightarrow> State option" where
  "exec P opts [] st = Some st"
| "exec P opts (a # as) st =
     (case step P opts a st of None \<Rightarrow> None | Some st1 \<Rightarrow> exec P opts as st1)"

section \<open>Invariants of the turns\<close>

text \<open>
  \<open>checkedUrls\<close> reads the record of notifications: the URLs of the \<open>link:start\<close>
  notifications emitted since the last \<open>start\<close>, in order. \<open>okEmission\<close> says what holds
  when \<open>link:start\<close> reaches a listener. \<open>good\<close> is the invariant of the dispatch loop.
\<close>

definition plain :: "Event \<Rightarrow> bool" where
  "plain e = (case e of Start u \<Rightarrow> False | LinkStart u p \<Rightarrow> False | _ \<Rightarrow> True)"

definition noteEvent :: "string list \<Rightarrow> Event \<Rightarrow> string list" where
  "noteEvent acc e = (case e of Start u \<Rightarrow> [] | LinkStart u p \<Rightarrow> acc @ [u] | _ \<Rightarrow> acc)"

definition checkedUrls :: "Emission list \<Rightarrow> string list" where
  "checkedUrls ems = foldl noteEvent [] (map event ems)"

definition okEmission :: "LinkCheckerOptions \<Rightarrow> Emission \<Rightarrow> bool" where
  "okEmission opts em =
     (case event em of
        LinkStart u p \<Rightarrow> int (activeSize em) < concurrency opts \<and> u \<in> set (visitedAt em)
      | _ \<Rightarrow> True)"

definition good :: "LinkCheckerOptions \<Rightarrow> State \<Rightarrow> bool" where
  "good opts st =
     (list_all (okEmission opts) (emitted st) \<and> checkedUrls (emitted st) = visited st \<and>
      addCalls st = visited st \<and> distinct (visited st))"

text \<open>
  \<open>quiet st st'\<close>: going from \<open>st\<close> to \<open>st'\<close> neither touched \<open>visited\<close> nor emitted
  \<open>start\<close> or \<open>link:start\<close>. \<open>tracked\<close>: every call of \<open>checkSingleUrl\<close> and every broken
  link is about a visited URL. \<open>calm st st'\<close>: going from \<open>st\<close> to \<open>st'\<close> kept \<open>visited\<close> and
  the calls, and only reported URLs of these calls broken.
\<close>

definition quiet :: "State \<Rightarrow> State \<Rightarrow> bool" where
  "quiet st st' =
     (visited st' = visited st \<and> addCalls st' = addCalls st \<and>
      (\<exists>ems. emitted st' = emitted st @ ems \<and> list_all (\<lambda>em. plain (event em)) ems))"

definition tracked :: "State \<Rightarrow> bool" where
  "tracked st =
     (list_all (\<lambda>t. task_url t \<in> set (visited st)) (tasks st) \<and>
      list_all (\<lambda>b. url b \<in> set (visited st)) (brokenLinks st))"

definition calm :: "State \<Rightarrow> State \<Rightarrow> bool" where
  "calm st st' =
     (visited st' = visited st \<and> map task_url (tasks st') = map task_url (tasks st) \<and>
      (\<exists>bs. brokenLinks st' = brokenLinks st @ bs \<and>
            list_all (\<lambda>b. url b \<in> set (map task_url (tasks st))) bs))"

fun isRun :: "Action \<Rightarrow> bool" where
  "isRun (Run u) = True"
| "isRun a = False"

text \<open>
  \<open>grown st st'\<close>: going from \<open>st\<close> to \<open>st'\<close> kept \<open>visited\<close> and only appended to the
  queue. \<open>queuedOrVisited link st\<close>: the link waits in the queue or is visited already.
\<close>

fun isStop :: "Action \<Rightarrow> bool" where
  "isStop Stop = True"
| "isStop a = False"

definition grown :: "State \<Rightarrow> State \<Rightarrow> bool" where
  "grown st st' = (visited st' = visited st \<and> prefix (queue st) (queue st'))"

definition queuedOrVisited :: "string \<Rightarrow> State \<Rightarrow> bool" where
  "queuedOrVisited link st =
     (link \<in> set (map item_url (queue st)) \<or> link \<in> set (visited st))"

text \<open>
  \<open>registered\<close>: the promise of every call of \<open>checkSingleUrl\<close> whose \<open>finally\<close> callback
  has not run is in \<open>activePromises\<close>. \<open>withinActive\<close>: a listener of \<open>link:start\<close> sees no
  more checks in flight than \<open>activePromises\<close> holds promises.
\<close>

definition registered :: "State \<Rightarrow> bool" where
  "registered st =
     (\<forall>p<length (tasks st). phase (tasks st ! p) \<noteq> Finalized \<longrightarrow> p \<in> set (activePromises st))"

definition withinActive :: "Emission \<Rightarrow> bool" where
  "withinActive em =
     (case event em of LinkStart u p \<Rightarrow> inFlightAt em \<le> activeSize em | _ \<Rightarrow> True)"

definition steady :: "State \<Rightarrow> bool" where
  "steady st = (registered st \<and> list_all withinActive (emitted st))"

section \<open>What the specification says about enqueueing\<close>

text \<open>
  The specification's words for the links a recursive page enqueues, to be compared with
  \<open>afterText\<close>: the hrefs are resolved against the response's final URL, and a link is
  recursive when its origin is the origin of that final URL.
\<close>

definition specEnqueued ::
  "Platform \<Rightarrow> LinkCheckerOptions \<Rightarrow> string \<Rightarrow> Response \<Rightarrow> State \<Rightarrow> QueueItem list" where
  "specEnqueued P opts checkedUrl response st =
     (case body response of
        Inl msg \<Rightarrow> []
      | Inr hrefs \<Rightarrow>
          map (\<lambda>link. \<lparr>item_url = link, item_parentUrl = Some checkedUrl,
                        isRecursive = (originOf P link = originOf P (final_url response))\<rparr>)
            (filter (\<lambda>link. link \<notin> set (visited st) \<and> shouldIgnore P opts link = Inr False)
               (extractLinks P hrefs (final_url response))))"

section \<open>Concrete runs\<close>

text \<open>
  A platform for the concrete runs below. On the URLs used there it agrees with the URL
  standard: an href with a scheme, already in serialised form, resolves to itself; an
  absolute path is appended to the origin of the base; the origin of
  \<open>http://host/path\<close> is \<open>http://host\<close>, and that of a URL with another scheme is the
  string \<open>null\<close>. A pattern without metacharacters matches where it occurs.
\<close>

definition httpOrigin :: "string \<Rightarrow> string + string" where
  "httpOrigin u =
     (if startsWith u ''http://''
      then Inr (''http://'' @ takeWhile (\<lambda>c. c \<noteq> CHR ''/'') (drop 7 u))
      else if startsWith u ''https://''
      then Inr (''https://'' @ takeWhile (\<lambda>c. c \<noteq> CHR ''/'') (drop 8 u))
      else if CHR '':'' \<in> set u then Inr ''null''
      else Inl ''Invalid URL'')"

definition samplePlatform :: Platform where
  "samplePlatform =
     \<lparr>resolveHref = (\<lambda>href base.
        if CHR '':'' \<in> set href then Some href
        else if startsWith href ''/'' then
          (case httpOrigin base of Inr origin \<Rightarrow> Some (origin @ href) | Inl msg \<Rightarrow> None)
        else None),
      originOf = httpOrigin,
      regexTest = (\<lambda>pattern u. Inr (str_includes u pattern))\<rparr>"

definition opts0 :: LinkCheckerOptions where
  "opts0 = \<lparr>ignoreLinks = [], concurrency = 2, retries = 1\<rparr>"

definition htmlPage :: "string \<Rightarrow> string list \<Rightarrow> Response" where
  "htmlPage u hrefs = \<lparr>status = 200, redirected = False, final_url = u,
     content_type = Some ''text/html'', body = Inr hrefs\<rparr>"

definition plainOk :: "string \<Rightarrow> Response" where
  "plainOk u = \<lparr>status = 200, redirected = False, final_url = u,
     content_type = None, body = Inr []\<rparr>"

definition redirectedPage :: Response where
  "redirectedPage = \<lparr>status = 200, redirected = True, final_url = ''http://b/'',
     content_type = Some ''text/html'', body = Inr [''/p'', ''http://b/q'']\<rparr>"

definition notFound :: Response where
  "notFound = \<lparr>status = 404, redirected = False, final_url = ''http://a/'',
     content_type = None, body = Inr []\<rparr>"

definition failing3 :: "nat \<Rightarrow> string" where
  "failing3 j = (if j = 2 then ''last'' else ''early'')"

text \<open>
  \<open>dupPageTrace\<close>: the seed page holds the same href twice and has been read.
  \<open>dedupTrace\<close>: the dispatch loop has then run again. \<open>staleTrace\<close>: a first run finds two
  links and starts both checks; the user stops it, the first check ends and with it the
  first \<open>run\<close>; the user starts a second run on another seed; then the second check of the
  first run fails.
\<close>

definition dupPageTrace :: "Action list" where
  "dupPageTrace =
     [Run ''http://a/'',
      FetchSettled 0 (\<lambda>i. Responded (htmlPage ''http://a/'' [''/x'', ''/x''])),
      TextSettled 0]"

definition dedupTrace :: "Action list" where
  "dedupTrace =
     [Run ''http://a/'',
      FetchSettled 0 (\<lambda>i. Responded (htmlPage ''http://a/'' [''/x'', ''/x''])),
      TextSettled 0, Finally 0, Resume 0]"

definition staleTrace :: "Action list" where
  "staleTrace =
     [Run ''http://a/'',
      FetchSettled 0 (\<lambda>i. Responded (htmlPage ''http://a/'' [''/x'', ''/y''])),
      TextSettled 0, Finally 0, Resume 0,
      Stop,
      FetchSettled 1 (\<lambda>i. Responded (plainOk ''http://a/x'')), Finally 1, Resume 0, Finish,
      Run ''http://b/'',
      FetchSettled 2 (\<lambda>i. Rejected ''boom''),
      FetchSettled 3 (\<lambda>i. Responded (plainOk ''http://b/'')), Finally 3, Resume 0, Finish]"

text \<open>
  \<open>dupPagePre\<close>, the turn \<open>TextSettled 0\<close> and \<open>dupPagePost\<close> make the whole run on the page
  with the href twice, up to the return of \<open>run\<close>. \<open>reuseTrace\<close>, with concurrency 3: a
  first run starts three checks and is stopped while they are in flight; a second run
  on another seed reads its page and starts three checks of its own.
\<close>

definition opts3 :: LinkCheckerOptions where
  "opts3 = \<lparr>ignoreLinks = [], concurrency = 3, retries = 1\<rparr>"

definition optsIgnoreX :: LinkCheckerOptions where
  "optsIgnoreX = \<lparr>ignoreLinks = [''x''], concurrency = 2, retries = 1\<rparr>"

definition dupPagePre :: "Action list" where
  "dupPagePre =
     [Run ''http://a/'',
      FetchSettled 0 (\<lambda>i. Responded (htmlPage ''http://a/'' [''/x'', ''/x'']))]"

definition dupPagePost :: "Action list" where
  "dupPagePost =
     [Finally 0, Resume 0, FetchSettled 1 (\<lambda>i. Responded (plainOk ''http://a/x'')),
      Finally 1, Resume 0, Finish]"

definition reuseTrace :: "Action list" where
  "reuseTrace =
     [Run ''http://a/'',
      FetchSettled 0 (\<lambda>i. Responded (htmlPage ''http://a/'' [''/1'', ''/2'', ''/3''])),
      TextSettled 0, Finally 0, Resume 0,
      Stop,
      Run ''http://b/'',
      FetchSettled 4 (\<lambda>i. Responded (htmlPage ''http://b/'' [''/1'', ''/2'', ''/3''])),
      TextSettled 4, Finally 4, Resume 1]"

section \<open>Lemmas\<close>

subsection \<open>Turns that leave the visited set alone\<close>

lemma quiet_refl: "quiet st st"
  by (simp add: quiet_def)

lemma quiet_trans: "quiet a b \<Longrightarrow> quiet b c \<Longrightarrow> quiet a c"
  by (auto simp: quiet_def)

lemma foldl_note_plain: "list_all plain es \<Longrightarrow> foldl noteEvent acc es = acc"
  by (induction es arbitrary: acc) (auto simp: noteEvent_def plain_def split: Event.splits)

lemma checkedUrls_plain:
  "list_all (\<lambda>em. plain (event em)) ems \<Longrightarrow> checkedUrls (xs @ ems) = checkedUrls xs"
  by (simp add: checkedUrls_def foldl_note_plain list_all_iff)

lemma okEmission_plain: "plain (event em) \<Longrightarrow> okEmission opts em"
  by (auto simp: okEmission_def plain_def split: Event.splits)

lemma good_quiet: "good opts st \<Longrightarrow> quiet st st' \<Longrightarrow> good opts st'"
  by (auto simp: good_def quiet_def checkedUrls_plain list_all_iff okEmission_plain)

lemma quiet_emit: "plain e \<Longrightarrow> quiet st st1 \<Longrightarrow> quiet st (emit e st1)"
  by (auto simp: quiet_def emit_def)

lemma quiet_pushBroken: "quiet st st1 \<Longrightarrow> quiet st (pushBroken b st1)"
  by (auto simp: quiet_def pushBroken_def)

lemma quiet_pushQueue: "quiet st st1 \<Longrightarrow> quiet st (pushQueue item st1)"
  by (auto simp: quiet_def pushQueue_def)

lemma quiet_emitProgress: "quiet st st1 \<Longrightarrow> quiet st (emitProgress st1)"
  by (simp add: emitProgress_def quiet_emit plain_def)

lemma quiet_catchBlock: "quiet st st1 \<Longrightarrow> quiet st (catchBlock u parent msg st1)"
  by (simp add: catchBlock_def quiet_pushBroken quiet_emit plain_def)

lemma quiet_setPhase: "quiet st st1 \<Longrightarrow> quiet st (setPhase p ph st1)"
  by (auto simp: quiet_def setPhase_def)

lemma quiet_suspend: "quiet st st1 \<Longrightarrow> quiet st (suspend ls st1)"
  by (auto simp: quiet_def suspend_def split: LoopStatus.splits)

lemma quiet_emitAll: "list_all plain es \<Longrightarrow> quiet st st1 \<Longrightarrow> quiet st (emitAll es st1)"
  by (induction es arbitrary: st1) (auto simp: quiet_emit)

lemma quiet_stop: "quiet st (stop st)"
  by (auto simp: quiet_def stop_def emit_def plain_def)

lemma quiet_finishRun: "quiet st (snd (finishRun st))"
  by (auto simp: quiet_def finishRun_def emit_def plain_def Let_def)

lemma quiet_shifted: "quiet st (shifted st)"
  by (auto simp: quiet_def shifted_def)

lemma quiet_afterFetch: "quiet st st1 \<Longrightarrow> quiet st (snd (afterFetch u parent r res st1))"
  by (auto simp: afterFetch_def Let_def plain_def quiet_emitProgress quiet_catchBlock
      quiet_emit quiet_pushBroken split: sum.splits)

lemma quiet_enqueueLinks:
  "quiet st st1 \<Longrightarrow> quiet st (snd (enqueueLinks P opts u baseOrigin links st1))"
  by (induction links arbitrary: st1) (auto simp: quiet_pushQueue split: sum.splits)

lemma quiet_enqueueLinks_eq:
  "quiet st st1 \<Longrightarrow> enqueueLinks P opts u baseOrigin links st1 = (r, st2) \<Longrightarrow> quiet st st2"
  using quiet_enqueueLinks [of st st1 P opts u baseOrigin links] by simp

lemma quiet_afterText: "quiet st st1 \<Longrightarrow> quiet st (afterText P opts u parent response st1)"
  by (auto simp: afterText_def Let_def quiet_emitProgress quiet_catchBlock
      split: sum.splits prod.splits option.splits dest: quiet_enqueueLinks_eq)

lemma notifications_Cons:
  "notifications (Attempt i # eff) = notifications eff"
  "notifications (Emit ev # eff) = ev # notifications eff"
  "notifications (Sleep # eff) = notifications eff"
  "notifications [] = []"
  by (simp_all add: notifications_def List.map_filter_simps)

lemma plain_Retry: "plain (Retry u n msg parent)"
  by (simp add: plain_def)

lemma plain_fetchLoop: "list_all plain (notifications (snd (fetchLoop opts u parent net i le)))"
proof (induction opts u parent net i le rule: fetchLoop.induct)
  case (1 opts u parent net i lastError)
  show ?case
    using 1
    by (subst fetchLoop.simps)
      (auto simp: notifications_Cons plain_Retry split: FetchOutcome.splits prod.splits option.splits)
qed

lemma quiet_fields:
  "visited st1 = visited st \<Longrightarrow> addCalls st1 = addCalls st \<Longrightarrow> emitted st1 = emitted st \<Longrightarrow>
   quiet st st1"
  by (simp add: quiet_def)

subsection \<open>The dispatch loop\<close>

lemma shifted_fields [simp]:
  "visited (shifted st) = visited st"
  "isRunning (shifted st) = isRunning st"
  "activePromises (shifted st) = activePromises st"
  "addCalls (shifted st) = addCalls st"
  "emitted (shifted st) = emitted st"
  by (simp_all add: shifted_def)

lemma checkedUrls_snoc: "checkedUrls (ems @ [em]) = noteEvent (checkedUrls ems) (event em)"
  by (simp add: checkedUrls_def)

lemma good_beginCheck:
  assumes "good opts st" and "isRunning st" and "item_url item \<notin> set (visited st)"
    and "int (length (activePromises st)) < concurrency opts"
  shows "good opts (beginCheck item (visited_add (item_url item) st))"
  using assms
  by (auto simp: good_def beginCheck_def visited_add_def emit_def Let_def checkedUrls_snoc
      noteEvent_def okEmission_def)

lemma innerLoop_exit:
  "\<not> (isRunning st \<and> queue st \<noteq> [] \<and> int (length (activePromises st)) < concurrency opts)
   \<Longrightarrow> innerLoop P opts st = (None, st)"
  by (subst innerLoop.simps) auto

lemma innerLoop_seen:
  "isRunning st \<Longrightarrow> queue st \<noteq> [] \<Longrightarrow> int (length (activePromises st)) < concurrency opts \<Longrightarrow>
   item_url (front st) \<in> set (visited st) \<Longrightarrow>
   innerLoop P opts st = innerLoop P opts (shifted st)"
  by (subst innerLoop.simps) simp

lemma innerLoop_throws:
  "isRunning st \<Longrightarrow> queue st \<noteq> [] \<Longrightarrow> int (length (activePromises st)) < concurrency opts \<Longrightarrow>
   item_url (front st) \<notin> set (visited st) \<Longrightarrow>
   shouldIgnore P opts (item_url (front st)) = Inl msg \<Longrightarrow>
   innerLoop P opts st = (Some msg, shifted st)"
  by (subst innerLoop.simps) simp

lemma innerLoop_ignored:
  "isRunning st \<Longrightarrow> queue st \<noteq> [] \<Longrightarrow> int (length (activePromises st)) < concurrency opts \<Longrightarrow>
   item_url (front st) \<notin> set (visited st) \<Longrightarrow>
   shouldIgnore P opts (item_url (front st)) = Inr True \<Longrightarrow>
   innerLoop P opts st = innerLoop P opts (shifted st)"
  by (subst innerLoop.simps) simp

lemma innerLoop_dispatch:
  "isRunning st \<Longrightarrow> queue st \<noteq> [] \<Longrightarrow> int (length (activePromises st)) < concurrency opts \<Longrightarrow>
   item_url (front st) \<notin> set (visited st) \<Longrightarrow>
   shouldIgnore P opts (item_url (front st)) = Inr False \<Longrightarrow>
   innerLoop P opts st =
     innerLoop P opts (beginCheck (front st) (visited_add (item_url (front st)) (shifted st)))"
  by (subst innerLoop.simps) simp

lemma good_innerLoop: "good opts st \<Longrightarrow> good opts (snd (innerLoop P opts st))"
proof (induction P opts st rule: innerLoop.induct)
  case (1 P opts st)
  have sh: "good opts (shifted st)"
    using "1.prems" quiet_shifted good_quiet by blast
  show ?case
  proof (cases "isRunning st \<and> queue st \<noteq> [] \<and>
      int (length (activePromises st)) < concurrency opts")
    case False
    then show ?thesis
      using "1.prems" by (simp add: innerLoop_exit)
  next
    case guard: True
    show ?thesis
    proof (cases "item_url (front st) \<in> set (visited st)")
      case True
      then show ?thesis
        using guard sh "1.IH"(1) by (simp add: innerLoop_seen)
    next
      case fresh: False
      show ?thesis
      proof (cases "shouldIgnore P opts (item_url (front st))")
        case (Inl msg)
        then show ?thesis
          using guard fresh sh by (simp add: innerLoop_throws)
      next
        case (Inr ignored)
        show ?thesis
        proof (cases ignored)
          case True
          then show ?thesis
            using guard fresh Inr sh "1.IH"(2) by (simp add: innerLoop_ignored)
        next
          case False
          have "good opts (beginCheck (front st) (visited_add (item_url (front st)) (shifted st)))"
            using good_beginCheck [OF sh, of "front st"] guard fresh by simp
          then show ?thesis
            using guard fresh Inr False "1.IH"(3) by (simp add: innerLoop_dispatch)
        qed
      qed
    qed
  qed
qed

lemma visited_beginCheck:
  "visited (beginCheck item (visited_add u st)) =
     (if u \<in> set (visited st) then visited st else visited st @ [u])"
  by (simp add: beginCheck_def visited_add_def emit_def Let_def)

lemma prefix_innerLoop: "prefix (visited st) (visited (snd (innerLoop P opts st)))"
proof (induction P opts st rule: innerLoop.induct)
  case (1 P opts st)
  show ?case
  proof (cases "isRunning st \<and> queue st \<noteq> [] \<and>
      int (length (activePromises st)) < concurrency opts")
    case False
    then show ?thesis
      by (simp add: innerLoop_exit)
  next
    case guard: True
    show ?thesis
    proof (cases "item_url (front st) \<in> set (visited st)")
      case True
      then show ?thesis
        using guard "1.IH"(1) by (simp add: innerLoop_seen)
    next
      case fresh: False
      show ?thesis
      proof (cases "shouldIgnore P opts (item_url (front st))")
        case (Inl msg)
        then show ?thesis
          using guard fresh by (simp add: innerLoop_throws)
      next
        case (Inr ignored)
        show ?thesis
        proof (cases ignored)
          case True
          then show ?thesis
            using guard fresh Inr "1.IH"(2) by (simp add: innerLoop_ignored)
        next
          case False
          have "prefix (visited st @ [item_url (front st)])
                  (visited (snd (innerLoop P opts
                     (beginCheck (front st) (visited_add (item_url (front st)) (shifted st))))))"
            using "1.IH"(3) guard fresh Inr False by (simp add: visited_beginCheck)
          then have "prefix (visited st)
                  (visited (snd (innerLoop P opts
                     (beginCheck (front st) (visited_add (item_url (front st)) (shifted st))))))"
            by (rule append_prefixD)
          then show ?thesis
            using guard fresh Inr False by (simp add: innerLoop_dispatch)
        qed
      qed
    qed
  qed
qed

lemma good_processQueue:
  assumes "good opts st" and "processQueue P opts st = (ls, st1)"
  shows "good opts st1"
proof -
  have "good opts (snd (innerLoop P opts st))"
    using assms(1) by (rule good_innerLoop)
  then show ?thesis
    using assms by (auto simp: processQueue_def split: if_splits prod.splits option.splits)
qed

lemma prefix_processQueue:
  assumes "processQueue P opts st = (ls, st1)"
  shows "prefix (visited st) (visited st1)"
  using assms prefix_innerLoop [of st P opts]
  by (auto simp: processQueue_def split: if_splits prod.splits option.splits)

lemma good_cleared:
  assumes "good opts st"
  shows "good opts
    (pushQueue item (emit (Start u)
       (st\<lparr>visited := [], addCalls := [], brokenLinks := [], queue := [],
           activePromises := [], isRunning := True\<rparr>)))"
  using assms
  by (auto simp: good_def pushQueue_def emit_def checkedUrls_snoc noteEvent_def okEmission_def)

lemma good_run:
  assumes "good opts st" and "run P opts u st = (r, st1)"
  shows "good opts st1"
proof (cases "isRunning st")
  case True
  then show ?thesis
    using assms by (simp add: run_def)
next
  case False
  let ?st3 = "pushQueue \<lparr>item_url = u, item_parentUrl = None, isRecursive = True\<rparr>
     (emit (Start u)
       (st\<lparr>visited := [], addCalls := [], brokenLinks := [], queue := [],
           activePromises := [], isRunning := True\<rparr>))"
  from False assms(2) obtain ls where "processQueue P opts ?st3 = (ls, st1)"
    by (auto simp: run_def Let_def split: prod.splits)
  then show ?thesis
    using good_cleared [OF assms(1)] good_processQueue by blast
qed

subsection \<open>Every turn keeps the invariant\<close>

lemma step_Run:
  assumes "step P opts (Run u) st = Some st'"
  obtains r st1 where "run P opts u st = (r, st1)" and "quiet st1 st'"
  using assms
  by (auto simp: step_def quiet_suspend quiet_refl split: if_splits prod.splits sum.splits)

lemma step_Resume:
  assumes "step P opts (Resume k) st = Some st'"
  obtains ls st1 where
    "processQueue P opts (st\<lparr>awaiting := take k (awaiting st) @ drop (Suc k) (awaiting st)\<rparr>)
       = (ls, st1)" and "quiet st1 st'"
  using assms
  by (auto simp: step_def quiet_suspend quiet_refl split: if_splits prod.splits)

lemma step_quiet:
  assumes "step P opts a st = Some st'" and "\<forall>u. a \<noteq> Run u" and "\<forall>k. a \<noteq> Resume k"
  shows "quiet st st'"
proof (cases a)
  case (Run u)
  then show ?thesis using assms by simp
next
  case Stop
  then show ?thesis
    using assms quiet_stop [of st] by (auto simp: step_def split: if_splits)
next
  case (Resume k)
  then show ?thesis using assms by simp
next
  case Finish
  let ?st0 = "st\<lparr>returning := returning st - 1\<rparr>"
  from Finish assms(1) obtain res where st': "st' = (snd (finishRun ?st0))\<lparr>returned := res\<rparr>"
    by (auto simp: step_def split: if_splits prod.splits)
  have "quiet st ?st0"
    by (simp add: quiet_fields)
  then have "quiet st (snd (finishRun ?st0))"
    using quiet_finishRun quiet_trans by blast
  moreover have "quiet (snd (finishRun ?st0)) st'"
    unfolding st' by (simp add: quiet_fields)
  ultimately show ?thesis
    using quiet_trans by blast
next
  case (FetchSettled p net)
  let ?u = "task_url (tasks st ! p)"
  let ?eff = "snd (fetchLoop opts ?u None net 0 None)"
  let ?res = "fst (fetchLoop opts ?u None net 0 None)"
  let ?out = "afterFetch ?u (task_parentUrl (tasks st ! p)) (task_isRecursive (tasks st ! p))
                ?res (emitAll (notifications ?eff) st)"
  from FetchSettled assms(1) have "st' = setPhase p (fst ?out) (snd ?out)"
    by (auto simp: step_def fetchWithRetry_def split: if_splits prod.splits)
  then show ?thesis
    by (simp add: quiet_setPhase quiet_afterFetch quiet_emitAll plain_fetchLoop quiet_refl)
next
  case (TextSettled p)
  from TextSettled assms(1) obtain u parent response where
    "st' = setPhase p Completed (afterText P opts u parent response st)"
    by (auto simp: step_def split: if_splits Phase.splits)
  then show ?thesis
    by (simp add: quiet_setPhase quiet_afterText quiet_refl)
next
  case (Finally p)
  from Finally assms(1) have
    "st' = setPhase p Finalized (st\<lparr>activePromises := removeAll p (activePromises st)\<rparr>)"
    by (auto simp: step_def split: if_splits)
  then show ?thesis
    by (simp add: quiet_setPhase quiet_fields)
qed

lemma good_step:
  assumes "good opts st" and "step P opts a st = Some st'"
  shows "good opts st'"
proof (cases a)
  case (Run u)
  with assms(2) obtain r st1 where "run P opts u st = (r, st1)" and "quiet st1 st'"
    using step_Run by blast
  then show ?thesis
    using assms(1) good_run good_quiet by blast
next
  case (Resume k)
  let ?st0 = "st\<lparr>awaiting := take k (awaiting st) @ drop (Suc k) (awaiting st)\<rparr>"
  from Resume assms(2) obtain ls st1 where
    "processQueue P opts ?st0 = (ls, st1)" and "quiet st1 st'"
    using step_Resume by blast
  moreover have "good opts ?st0"
    using assms(1) by (simp add: good_def)
  ultimately show ?thesis
    using good_processQueue good_quiet by blast
qed (use assms step_quiet [of P opts a st st'] good_quiet in auto)

lemma good_new: "good opts newLinkChecker"
  by (simp add: good_def newLinkChecker_def checkedUrls_def)

lemma good_exec:
  "good opts st \<Longrightarrow> exec P opts acts st = Some st' \<Longrightarrow> good opts st'"
proof (induction acts arbitrary: st)
  case Nil
  then show ?case by simp
next
  case (Cons a acts)
  then obtain st1 where "step P opts a st = Some st1" and "exec P opts acts st1 = Some st'"
    by (auto split: option.splits)
  then show ?case
    using Cons.IH Cons.prems(1) good_step by blast
qed

lemma visited_step:
  assumes "isRunning st" and "step P opts a st = Some st'"
  shows "prefix (visited st) (visited st')"
proof (cases a)
  case (Run u)
  with assms(2) obtain r st1 where "run P opts u st = (r, st1)" and "quiet st1 st'"
    using step_Run by blast
  then show ?thesis
    using assms(1) by (simp add: run_def quiet_def)
next
  case (Resume k)
  let ?st0 = "st\<lparr>awaiting := take k (awaiting st) @ drop (Suc k) (awaiting st)\<rparr>"
  from Resume assms(2) obtain ls st1 where
    "processQueue P opts ?st0 = (ls, st1)" and "quiet st1 st'"
    using step_Resume by blast
  then show ?thesis
    using prefix_processQueue [of P opts ?st0 ls st1] by (simp add: quiet_def)
qed (use assms step_quiet [of P opts a st st'] in \<open>auto simp: quiet_def\<close>)

lemma okEmission_LinkStart:
  "okEmission opts em \<Longrightarrow> event em = LinkStart u p \<Longrightarrow>
   int (activeSize em) < concurrency opts \<and> u \<in> set (visitedAt em)"
  by (simp add: okEmission_def)

lemma activePromises_below_concurrency:
  assumes "exec P opts acts newLinkChecker = Some st"
    and "em \<in> set (emitted st)" and "event em = LinkStart u p"
  shows "int (activeSize em) < concurrency opts \<and> int (activeSize em) \<le> concurrency opts"
proof -
  have "good opts st"
    using assms(1) good_exec good_new by blast
  then have "okEmission opts em"
    using assms(2) by (simp add: good_def list_all_iff)
  then show ?thesis
    using assms(3) okEmission_LinkStart by fastforce
qed

subsection \<open>fetchWithRetry\<close>

lemma fetchLoop_responded:
  "int i < retries opts \<Longrightarrow> net i = Responded r \<Longrightarrow>
   fetchLoop opts u parent net i le = (Inr r, [Attempt i])"
  by (subst fetchLoop.simps) simp

lemma fetchLoop_exhausted:
  "\<not> int i < retries opts \<Longrightarrow>
   fetchLoop opts u parent net i le =
     (Inl (case le of Some msg \<Rightarrow> msg | None \<Rightarrow> ''Failed after multiple retries''), [])"
  by (subst fetchLoop.simps) (simp split: option.splits)

lemma fetchLoop_retry:
  "int i < retries opts - 1 \<Longrightarrow> net i = Rejected msg \<Longrightarrow>
   fetchLoop opts u parent net i le =
     (fst (fetchLoop opts u parent net (Suc i) (Some msg)),
      Attempt i # Emit (Retry u (int i + 1) msg parent) # Sleep #
        snd (fetchLoop opts u parent net (Suc i) (Some msg)))"
  by (subst fetchLoop.simps) (simp split: prod.splits)

lemma fetchLoop_last:
  "int i < retries opts \<Longrightarrow> \<not> int i < retries opts - 1 \<Longrightarrow> net i = Rejected msg \<Longrightarrow>
   fetchLoop opts u parent net i le = (Inl msg, [Attempt i])"
  by (subst fetchLoop.simps) (simp add: fetchLoop_exhausted split: prod.splits)

lemma attempts_Cons [simp]:
  "attempts [] = 0"
  "attempts (Attempt i # eff) = Suc (attempts eff)"
  "attempts (Emit ev # eff) = attempts eff"
  "attempts (Sleep # eff) = attempts eff"
  by (simp_all add: attempts_def)

lemma delays_Cons [simp]:
  "delays [] = 0"
  "delays (Attempt i # eff) = delays eff"
  "delays (Emit ev # eff) = delays eff"
  "delays (Sleep # eff) = Suc (delays eff)"
  by (simp_all add: delays_def)

lemma fetchLoop_all_rejected:
  assumes "\<forall>j. int j < retries opts \<longrightarrow> net j = Rejected (msg j)" and "int i < retries opts"
  shows "fst (fetchLoop opts u parent net i le) = Inl (msg (nat (retries opts - 1))) \<and>
         int (attempts (snd (fetchLoop opts u parent net i le))) = retries opts - int i \<and>
         int (delays (snd (fetchLoop opts u parent net i le))) = retries opts - 1 - int i"
  using assms
proof (induction "nat (retries opts) - i" arbitrary: i le)
  case 0
  then show ?case by simp
next
  case (Suc n)
  have rej: "net i = Rejected (msg i)"
    using Suc.prems by simp
  show ?case
  proof (cases "int i < retries opts - 1")
    case True
    have "n = nat (retries opts) - Suc i"
      using Suc.hyps(2) by simp
    moreover have "int (Suc i) < retries opts"
      using True by simp
    ultimately have IH:
      "fst (fetchLoop opts u parent net (Suc i) (Some (msg i))) = Inl (msg (nat (retries opts - 1))) \<and>
       int (attempts (snd (fetchLoop opts u parent net (Suc i) (Some (msg i))))) = retries opts - int (Suc i) \<and>
       int (delays (snd (fetchLoop opts u parent net (Suc i) (Some (msg i))))) = retries opts - 1 - int (Suc i)"
      using Suc.hyps(1) Suc.prems(1) by blast
    show ?thesis
      using IH by (simp add: fetchLoop_retry True rej)
  next
    case False
    then have "nat (retries opts - 1) = i"
      using Suc.prems(2) by simp
    then show ?thesis
      using False Suc.prems(2) by (simp add: fetchLoop_last rej)
  qed
qed

subsection \<open>Enqueueing and extraction\<close>

lemma pushQueue_fields [simp]:
  "visited (pushQueue item st) = visited st"
  "queue (pushQueue item st) = queue st @ [item]"
  by (simp_all add: pushQueue_def)

lemma enqueueLinks_queue:
  assumes "\<forall>link\<in>set links. (\<exists>b. shouldIgnore P opts link = Inr b) \<and>
             (\<exists>lo. originOf P link = Inr lo)"
  shows "enqueueLinks P opts u bo links st =
           (None,
            st\<lparr>queue := queue st @
               map (\<lambda>link. \<lparr>item_url = link, item_parentUrl = Some u,
                             isRecursive = (originOf P link = Inr bo)\<rparr>)
                 (filter (\<lambda>link. link \<notin> set (visited st) \<and> shouldIgnore P opts link = Inr False)
                    links)\<rparr>)"
  using assms
proof (induction links arbitrary: st)
  case Nil
  then show ?case by simp
next
  case (Cons link links)
  then show ?case
    by (auto simp: pushQueue_def)
qed

lemma afterText_queue:
  assumes "body response = Inr hrefs" and "originOf P u = Inr bo"
    and "\<forall>link\<in>set (extractLinks P hrefs u). (\<exists>b. shouldIgnore P opts link = Inr b) \<and>
           (\<exists>lo. originOf P link = Inr lo)"
  shows "queue (afterText P opts u parent response st) =
           queue st @
             map (\<lambda>link. \<lparr>item_url = link, item_parentUrl = Some u,
                           isRecursive = (originOf P link = Inr bo)\<rparr>)
               (filter (\<lambda>link. link \<notin> set (visited st) \<and> shouldIgnore P opts link = Inr False)
                  (extractLinks P hrefs u))"
  using assms(1,2) enqueueLinks_queue [OF assms(3), of u bo st]
  by (simp add: afterText_def Let_def emitProgress_def emit_def)

lemma count_list_filter:
  "count_list (filter Q xs) x = (if Q x then count_list xs x else 0)"
  by (induction xs) auto

lemma set_map_filter_iff:
  "y \<in> set (List.map_filter f xs) \<longleftrightarrow> (\<exists>x\<in>set xs. f x = Some y)"
  by (induction xs) (auto split: option.splits)

lemma extractLinks_sound:
  assumes "r \<in> set (extractLinks P hrefs base)"
  shows "\<exists>href \<in> set hrefs. href \<noteq> [] \<and> \<not> startsWith href ''#'' \<and>
           resolveHref P href base = Some r \<and> startsWith r ''http''"
  using assms
  by (auto simp: extractLinks_def resolveOne_def set_map_filter_iff split: option.splits if_splits)

subsection \<open>Broken links of a single run\<close>

lemma calm_refl: "calm st st"
  by (simp add: calm_def)

lemma calm_trans: "calm a b \<Longrightarrow> calm b c \<Longrightarrow> calm a c"
  by (auto simp: calm_def)

lemma tracked_calm:
  assumes t: "tracked st" and c: "calm st st'"
  shows "tracked st'"
proof -
  from c have m: "map task_url (tasks st') = map task_url (tasks st)"
    and v: "visited st' = visited st"
    by (simp_all add: calm_def)
  have "task_url x \<in> set (visited st')" if "x \<in> set (tasks st')" for x
  proof -
    from that have "task_url x \<in> set (map task_url (tasks st'))"
      by simp
    then have "task_url x \<in> set (map task_url (tasks st))"
      by (simp only: m)
    then obtain y where "y \<in> set (tasks st)" and "task_url y = task_url x"
      by auto
    then show ?thesis
      using t v by (auto simp: tracked_def list_all_iff)
  qed
  moreover from c obtain bs where bs: "brokenLinks st' = brokenLinks st @ bs"
    and ok: "list_all (\<lambda>b. url b \<in> set (map task_url (tasks st))) bs"
    by (auto simp: calm_def)
  have "url b \<in> set (visited st')" if "b \<in> set (brokenLinks st')" for b
  proof (cases "b \<in> set (brokenLinks st)")
    case True
    then show ?thesis
      using t v by (simp add: tracked_def list_all_iff)
  next
    case False
    then have "b \<in> set bs"
      using that bs by simp
    then have "url b \<in> set (map task_url (tasks st))"
      using ok by (simp add: list_all_iff)
    then obtain y where "y \<in> set (tasks st)" and "task_url y = url b"
      by auto
    then show ?thesis
      using t v by (auto simp: tracked_def list_all_iff)
  qed
  ultimately show ?thesis
    by (simp add: tracked_def list_all_iff)
qed

lemma calm_fields:
  "visited st1 = visited st \<Longrightarrow> tasks st1 = tasks st \<Longrightarrow> brokenLinks st1 = brokenLinks st \<Longrightarrow>
   calm st st1"
  by (simp add: calm_def)

lemma calm_emit: "calm st st1 \<Longrightarrow> calm st (emit e st1)"
  by (auto simp: calm_def emit_def)

lemma calm_pushQueue: "calm st st1 \<Longrightarrow> calm st (pushQueue item st1)"
  by (auto simp: calm_def pushQueue_def)

lemma calm_pushBroken:
  "calm st st1 \<Longrightarrow> url b \<in> set (map task_url (tasks st)) \<Longrightarrow> calm st (pushBroken b st1)"
  by (auto simp: calm_def pushBroken_def)

lemma calm_emitProgress: "calm st st1 \<Longrightarrow> calm st (emitProgress st1)"
  by (simp add: emitProgress_def calm_emit)

lemma calm_catchBlock:
  "calm st st1 \<Longrightarrow> u \<in> set (map task_url (tasks st)) \<Longrightarrow> calm st (catchBlock u parent msg st1)"
  by (simp add: catchBlock_def calm_pushBroken calm_emit)

lemma map_update_same: "f x = f (xs ! p) \<Longrightarrow> map f (xs[p := x]) = map f xs"
  by (cases "p < length xs") (simp_all add: map_update list_update_same_conv list_update_beyond not_less)

lemma setPhase_fields [simp]:
  "visited (setPhase p ph st) = visited st"
  "brokenLinks (setPhase p ph st) = brokenLinks st"
  "map task_url (tasks (setPhase p ph st)) = map task_url (tasks st)"
  by (simp_all add: setPhase_def map_update_same)

lemma calm_setPhase: "calm st st1 \<Longrightarrow> calm st (setPhase p ph st1)"
  by (simp add: calm_def)

lemma calm_suspend: "calm st st1 \<Longrightarrow> calm st (suspend ls st1)"
  by (auto simp: calm_def suspend_def split: LoopStatus.splits)

lemma calm_emitAll: "calm st st1 \<Longrightarrow> calm st (emitAll es st1)"
  by (induction es arbitrary: st1) (auto simp: calm_emit)

lemma calm_stop: "calm st (stop st)"
  by (auto simp: calm_def stop_def emit_def)

lemma calm_finishRun: "calm st (snd (finishRun st))"
  by (auto simp: calm_def finishRun_def emit_def Let_def)

lemma calm_afterFetch:
  "calm st st1 \<Longrightarrow> u \<in> set (map task_url (tasks st)) \<Longrightarrow>
   calm st (snd (afterFetch u parent r res st1))"
  by (auto simp: afterFetch_def Let_def calm_emitProgress calm_catchBlock calm_emit
      calm_pushBroken split: sum.splits)

lemma calm_enqueueLinks:
  "calm st st1 \<Longrightarrow> calm st (snd (enqueueLinks P opts u baseOrigin links st1))"
  by (induction links arbitrary: st1) (auto simp: calm_pushQueue split: sum.splits)

lemma calm_enqueueLinks_eq:
  "calm st st1 \<Longrightarrow> enqueueLinks P opts u baseOrigin links st1 = (r, st2) \<Longrightarrow> calm st st2"
  using calm_enqueueLinks [of st st1 P opts u baseOrigin links] by simp

lemma calm_afterText:
  "calm st st1 \<Longrightarrow> u \<in> set (map task_url (tasks st)) \<Longrightarrow>
   calm st (afterText P opts u parent response st1)"
  by (auto simp: afterText_def Let_def calm_emitProgress calm_catchBlock
      split: sum.splits prod.splits option.splits dest: calm_enqueueLinks_eq)

lemma tracked_beginCheck:
  "tracked st \<Longrightarrow> tracked (beginCheck item (visited_add (item_url item) st))"
  by (auto simp: tracked_def beginCheck_def visited_add_def emit_def Let_def list_all_iff)

lemma tracked_shifted: "tracked st \<Longrightarrow> tracked (shifted st)"
  by (simp add: tracked_def shifted_def)

lemma tracked_innerLoop: "tracked st \<Longrightarrow> tracked (snd (innerLoop P opts st))"
proof (induction P opts st rule: innerLoop.induct)
  case (1 P opts st)
  have sh: "tracked (shifted st)"
    using "1.prems" by (rule tracked_shifted)
  show ?case
  proof (cases "isRunning st \<and> queue st \<noteq> [] \<and>
      int (length (activePromises st)) < concurrency opts")
    case False
    then show ?thesis
      using "1.prems" by (simp add: innerLoop_exit)
  next
    case guard: True
    show ?thesis
    proof (cases "item_url (front st) \<in> set (visited st)")
      case True
      then show ?thesis
        using guard sh "1.IH"(1) by (simp add: innerLoop_seen)
    next
      case fresh: False
      show ?thesis
      proof (cases "shouldIgnore P opts (item_url (front st))")
        case (Inl msg)
        then show ?thesis
          using guard fresh sh by (simp add: innerLoop_throws)
      next
        case (Inr ignored)
        show ?thesis
        proof (cases ignored)
          case True
          then show ?thesis
            using guard fresh Inr sh "1.IH"(2) by (simp add: innerLoop_ignored)
        next
          case False
          have "tracked (beginCheck (front st) (visited_add (item_url (front st)) (shifted st)))"
            using sh by (rule tracked_beginCheck)
          then show ?thesis
            using guard fresh Inr False "1.IH"(3) by (simp add: innerLoop_dispatch)
        qed
      qed
    qed
  qed
qed

lemma tracked_processQueue:
  assumes "tracked st" and "processQueue P opts st = (ls, st1)"
  shows "tracked st1"
proof -
  have "tracked (snd (innerLoop P opts st))"
    using assms(1) by (rule tracked_innerLoop)
  then show ?thesis
    using assms by (auto simp: processQueue_def split: if_splits prod.splits option.splits)
qed

lemma tracked_first_run:
  assumes "run P opts u newLinkChecker = (r, st1)"
  shows "tracked st1"
proof -
  let ?st3 = "pushQueue \<lparr>item_url = u, item_parentUrl = None, isRecursive = True\<rparr>
     (emit (Start u)
       (newLinkChecker\<lparr>visited := [], addCalls := [], brokenLinks := [], queue := [],
           activePromises := [], isRunning := True\<rparr>))"
  have "tracked ?st3"
    by (simp add: tracked_def pushQueue_def emit_def newLinkChecker_def)
  moreover from assms obtain ls where "processQueue P opts ?st3 = (ls, st1)"
    by (auto simp: run_def Let_def newLinkChecker_def split: prod.splits)
  ultimately show ?thesis
    using tracked_processQueue by blast
qed

lemma step_calm:
  assumes "step P opts a st = Some st'" and "\<not> isRun a" and "\<forall>k. a \<noteq> Resume k"
  shows "calm st st'"
proof (cases a)
  case (Run u)
  then show ?thesis using assms by simp
next
  case Stop
  then show ?thesis
    using assms calm_stop [of st] by (auto simp: step_def split: if_splits)
next
  case (Resume k)
  then show ?thesis using assms by simp
next
  case Finish
  let ?st0 = "st\<lparr>returning := returning st - 1\<rparr>"
  from Finish assms(1) obtain res where st': "st' = (snd (finishRun ?st0))\<lparr>returned := res\<rparr>"
    by (auto simp: step_def split: if_splits prod.splits)
  have "calm st ?st0"
    by (simp add: calm_fields)
  then have "calm st (snd (finishRun ?st0))"
    using calm_finishRun calm_trans by blast
  moreover have "calm (snd (finishRun ?st0)) st'"
    unfolding st' by (simp add: calm_fields)
  ultimately show ?thesis
    using calm_trans by blast
next
  case (FetchSettled p net)
  let ?u = "task_url (tasks st ! p)"
  let ?eff = "snd (fetchLoop opts ?u None net 0 None)"
  let ?res = "fst (fetchLoop opts ?u None net 0 None)"
  let ?out = "afterFetch ?u (task_parentUrl (tasks st ! p)) (task_isRecursive (tasks st ! p))
                ?res (emitAll (notifications ?eff) st)"
  from FetchSettled assms(1) have st': "st' = setPhase p (fst ?out) (snd ?out)"
    and p: "p < length (tasks st)"
    by (auto simp: step_def fetchWithRetry_def split: if_splits prod.splits)
  have "?u \<in> set (map task_url (tasks st))"
    using p by simp
  then show ?thesis
    unfolding st' by (intro calm_setPhase calm_afterFetch calm_emitAll calm_refl)
next
  case (TextSettled p)
  from TextSettled assms(1) obtain response where
    st': "st' = setPhase p Completed
       (afterText P opts (task_url (tasks st ! p)) (task_parentUrl (tasks st ! p)) response st)"
    and p: "p < length (tasks st)"
    by (auto simp: step_def split: if_splits Phase.splits)
  have "task_url (tasks st ! p) \<in> set (map task_url (tasks st))"
    using p by simp
  then show ?thesis
    unfolding st' by (intro calm_setPhase calm_afterText calm_refl)
next
  case (Finally p)
  from Finally assms(1) have
    "st' = setPhase p Finalized (st\<lparr>activePromises := removeAll p (activePromises st)\<rparr>)"
    by (auto simp: step_def split: if_splits)
  then show ?thesis
    by (simp add: calm_setPhase calm_fields)
qed

lemma calm_suspended: "calm st1 (suspend ls st1)"
  by (simp add: calm_suspend calm_refl)

lemma step_Resume_calm:
  assumes "step P opts (Resume k) st = Some st'"
  obtains ls st1 where
    "processQueue P opts (st\<lparr>awaiting := take k (awaiting st) @ drop (Suc k) (awaiting st)\<rparr>)
       = (ls, st1)" and "calm st1 st'"
  using assms
  by (auto simp: step_def calm_suspended split: if_splits prod.splits)

lemma tracked_step:
  assumes "tracked st" and "\<not> isRun a" and "step P opts a st = Some st'"
  shows "tracked st'"
proof (cases "\<exists>k. a = Resume k")
  case True
  then obtain k where a: "a = Resume k"
    by blast
  let ?st0 = "st\<lparr>awaiting := take k (awaiting st) @ drop (Suc k) (awaiting st)\<rparr>"
  from a assms(3) obtain ls st1 where
    "processQueue P opts ?st0 = (ls, st1)" and "calm st1 st'"
    using step_Resume_calm by blast
  moreover have "tracked ?st0"
    using assms(1) by (simp add: tracked_def)
  ultimately show ?thesis
    using tracked_processQueue tracked_calm by blast
next
  case False
  then show ?thesis
    using assms step_calm tracked_calm by blast
qed

lemma tracked_exec:
  "tracked st \<Longrightarrow> list_all (\<lambda>a. \<not> isRun a) acts \<Longrightarrow> exec P opts acts st = Some st' \<Longrightarrow>
   tracked st'"
proof (induction acts arbitrary: st)
  case Nil
  then show ?case by simp
next
  case (Cons a acts)
  from Cons.prems(3) obtain st1 where s: "step P opts a st = Some st1"
    and e: "exec P opts acts st1 = Some st'"
    by (auto split: option.splits)
  from Cons.prems(2) have na: "\<not> isRun a" and rest: "list_all (\<lambda>a. \<not> isRun a) acts"
    by simp_all
  have "tracked st1"
    using Cons.prems(1) na s by (rule tracked_step)
  then show ?case
    using rest e by (rule Cons.IH)
qed

text \<open>
  On an instance that runs once, every broken link is about a visited URL, whatever the
  order of the turns and whether or not the run is stopped.
\<close>

lemma broken_subset_visited_single_run:
  assumes "exec P opts (Run u # acts) newLinkChecker = Some st"
    and "list_all (\<lambda>a. \<not> isRun a) acts"
  shows "set (map url (brokenLinks st)) \<subseteq> set (visited st)"
proof -
  from assms(1) obtain st0 where s0: "step P opts (Run u) newLinkChecker = Some st0"
    and rest: "exec P opts acts st0 = Some st"
    by (auto split: option.splits)
  from s0 obtain r st1 where "run P opts u newLinkChecker = (r, st1)" and "st0 = suspend
      (case r of Inr ls \<Rightarrow> ls | Inl msg \<Rightarrow> Threw msg) st1"
    by (auto simp: step_def suspend_def split: if_splits prod.splits sum.splits)
  then have "tracked st0"
    using tracked_first_run tracked_calm calm_suspended by metis
  then have "tracked st"
    using assms(2) rest tracked_exec by blast
  then show ?thesis
    by (auto simp: tracked_def list_all_iff)
qed

subsection \<open>Queued links are visited\<close>

lemma grown_refl: "grown st st"
  by (simp add: grown_def)

lemma grown_trans: "grown a b \<Longrightarrow> grown b c \<Longrightarrow> grown a c"
  by (auto simp: grown_def)

lemma grown_fields:
  "visited st1 = visited st \<Longrightarrow> queue st1 = queue st \<Longrightarrow> grown st st1"
  by (simp add: grown_def)

lemma grown_emit: "grown st st1 \<Longrightarrow> grown st (emit e st1)"
  by (auto simp: grown_def emit_def)

lemma grown_pushBroken: "grown st st1 \<Longrightarrow> grown st (pushBroken b st1)"
  by (auto simp: grown_def pushBroken_def)

lemma grown_pushQueue: "grown st st1 \<Longrightarrow> grown st (pushQueue item st1)"
  by (auto simp: grown_def)

lemma grown_emitProgress: "grown st st1 \<Longrightarrow> grown st (emitProgress st1)"
  by (simp add: emitProgress_def grown_emit)

lemma grown_catchBlock: "grown st st1 \<Longrightarrow> grown st (catchBlock u parent msg st1)"
  by (simp add: catchBlock_def grown_pushBroken grown_emit)

lemma grown_setPhase: "grown st st1 \<Longrightarrow> grown st (setPhase p ph st1)"
  by (auto simp: grown_def setPhase_def)

lemma grown_emitAll: "grown st st1 \<Longrightarrow> grown st (emitAll es st1)"
  by (induction es arbitrary: st1) (auto simp: grown_emit)

lemma grown_finishRun: "grown st (snd (finishRun st))"
  by (auto simp: grown_def finishRun_def emit_def Let_def)

lemma grown_afterFetch: "grown st st1 \<Longrightarrow> grown st (snd (afterFetch u parent r res st1))"
  by (auto simp: afterFetch_def Let_def grown_emitProgress grown_catchBlock grown_emit
      grown_pushBroken split: sum.splits)

lemma grown_enqueueLinks:
  "grown st st1 \<Longrightarrow> grown st (snd (enqueueLinks P opts u baseOrigin links st1))"
  by (induction links arbitrary: st1) (auto simp: grown_pushQueue split: sum.splits)

lemma grown_enqueueLinks_eq:
  "grown st st1 \<Longrightarrow> enqueueLinks P opts u baseOrigin links st1 = (r, st2) \<Longrightarrow> grown st st2"
  using grown_enqueueLinks [of st st1 P opts u baseOrigin links] by simp

lemma grown_afterText: "grown st st1 \<Longrightarrow> grown st (afterText P opts u parent response st1)"
  by (auto simp: afterText_def Let_def grown_emitProgress grown_catchBlock
      split: sum.splits prod.splits option.splits dest: grown_enqueueLinks_eq)

lemma grown_suspended: "grown st1 (suspend ls st1)"
  by (auto simp: grown_def suspend_def split: LoopStatus.splits)

lemma step_grown:
  assumes "step P opts a st = Some st'" and "\<not> isRun a" and "\<not> isStop a"
    and "\<forall>k. a \<noteq> Resume k"
  shows "grown st st'"
proof (cases a)
  case (Run u)
  then show ?thesis using assms by simp
next
  case Stop
  then show ?thesis using assms by simp
next
  case (Resume k)
  then show ?thesis using assms by simp
next
  case Finish
  let ?st0 = "st\<lparr>returning := returning st - 1\<rparr>"
  from Finish assms(1) obtain res where st': "st' = (snd (finishRun ?st0))\<lparr>returned := res\<rparr>"
    by (auto simp: step_def split: if_splits prod.splits)
  have "grown st ?st0"
    by (simp add: grown_fields)
  then have "grown st (snd (finishRun ?st0))"
    using grown_finishRun grown_trans by blast
  moreover have "grown (snd (finishRun ?st0)) st'"
    unfolding st' by (simp add: grown_fields)
  ultimately show ?thesis
    using grown_trans by blast
next
  case (FetchSettled p net)
  let ?u = "task_url (tasks st ! p)"
  let ?eff = "snd (fetchLoop opts ?u None net 0 None)"
  let ?res = "fst (fetchLoop opts ?u None net 0 None)"
  let ?out = "afterFetch ?u (task_parentUrl (tasks st ! p)) (task_isRecursive (tasks st ! p))
                ?res (emitAll (notifications ?eff) st)"
  from FetchSettled assms(1) have st': "st' = setPhase p (fst ?out) (snd ?out)"
    by (auto simp: step_def fetchWithRetry_def split: if_splits prod.splits)
  show ?thesis
    unfolding st' by (intro grown_setPhase grown_afterFetch grown_emitAll grown_refl)
next
  case (TextSettled p)
  from TextSettled assms(1) obtain response where
    st': "st' = setPhase p Completed
       (afterText P opts (task_url (tasks st ! p)) (task_parentUrl (tasks st ! p)) response st)"
    by (auto simp: step_def split: if_splits Phase.splits)
  show ?thesis
    unfolding st' by (intro grown_setPhase grown_afterText grown_refl)
next
  case (Finally p)
  from Finally assms(1) have
    "st' = setPhase p Finalized (st\<lparr>activePromises := removeAll p (activePromises st)\<rparr>)"
    by (auto simp: step_def split: if_splits)
  then show ?thesis
    by (simp add: grown_setPhase grown_fields)
qed

lemma queuedOrVisited_grown:
  "queuedOrVisited link st \<Longrightarrow> grown st st' \<Longrightarrow> queuedOrVisited link st'"
  using set_mono_prefix by (fastforce simp: queuedOrVisited_def grown_def)

lemma queuedOrVisited_shifted:
  assumes "queuedOrVisited link st" and "queue st \<noteq> []"
    and "item_url (front st) \<noteq> link \<or> link \<in> set (visited st)"
  shows "queuedOrVisited link (shifted st)"
  using assms by (cases "queue st") (auto simp: queuedOrVisited_def shifted_def front_def)

lemma queuedOrVisited_dispatch:
  assumes "queuedOrVisited link st" and "queue st \<noteq> []"
  shows "queuedOrVisited link (beginCheck (front st) (visited_add (item_url (front st)) (shifted st)))"
  using assms
  by (cases "queue st")
    (auto simp: queuedOrVisited_def shifted_def front_def beginCheck_def visited_add_def emit_def
      Let_def)

lemma queuedOrVisited_innerLoop:
  "shouldIgnore P opts link = Inr False \<Longrightarrow> queuedOrVisited link st \<Longrightarrow>
   queuedOrVisited link (snd (innerLoop P opts st))"
proof (induction P opts st rule: innerLoop.induct)
  case (1 P opts st)
  note keep = "1.prems"(2)
  note ign = "1.prems"(1)
  show ?case
  proof (cases "isRunning st \<and> queue st \<noteq> [] \<and>
      int (length (activePromises st)) < concurrency opts")
    case False
    then show ?thesis
      using keep by (simp add: innerLoop_exit)
  next
    case guard: True
    show ?thesis
    proof (cases "item_url (front st) \<in> set (visited st)")
      case True
      then have "queuedOrVisited link (shifted st)"
        using keep guard by (intro queuedOrVisited_shifted) auto
      then show ?thesis
        using guard True ign "1.IH"(1) by (simp add: innerLoop_seen)
    next
      case fresh: False
      show ?thesis
      proof (cases "shouldIgnore P opts (item_url (front st))")
        case (Inl msg)
        then have "item_url (front st) \<noteq> link"
          using ign by auto
        then have "queuedOrVisited link (shifted st)"
          using keep guard by (intro queuedOrVisited_shifted) auto
        then show ?thesis
          using guard fresh Inl by (simp add: innerLoop_throws)
      next
        case (Inr ignored)
        show ?thesis
        proof (cases ignored)
          case True
          then have "item_url (front st) \<noteq> link"
            using ign Inr by auto
          then have "queuedOrVisited link (shifted st)"
            using keep guard by (intro queuedOrVisited_shifted) auto
          then show ?thesis
            using guard fresh Inr True ign "1.IH"(2) by (simp add: innerLoop_ignored)
        next
          case False
          have "queuedOrVisited link
                  (beginCheck (front st) (visited_add (item_url (front st)) (shifted st)))"
            using keep guard by (intro queuedOrVisited_dispatch) auto
          then show ?thesis
            using guard fresh Inr False ign "1.IH"(3) by (simp add: innerLoop_dispatch)
        qed
      qed
    qed
  qed
qed

lemma queuedOrVisited_processQueue:
  assumes "shouldIgnore P opts link = Inr False" and "queuedOrVisited link st"
    and "processQueue P opts st = (ls, st1)"
  shows "queuedOrVisited link st1"
proof -
  have "queuedOrVisited link (snd (innerLoop P opts st))"
    using assms(1,2) by (rule queuedOrVisited_innerLoop)
  then show ?thesis
    using assms by (auto simp: processQueue_def split: if_splits prod.splits option.splits)
qed

lemma step_Resume_grown:
  assumes "step P opts (Resume k) st = Some st'"
  obtains ls st1 where
    "processQueue P opts (st\<lparr>awaiting := take k (awaiting st) @ drop (Suc k) (awaiting st)\<rparr>)
       = (ls, st1)" and "grown st1 st'"
  using assms
  by (auto simp: step_def grown_suspended split: if_splits prod.splits)

lemma queuedOrVisited_step:
  assumes "shouldIgnore P opts link = Inr False" and "queuedOrVisited link st"
    and "\<not> isRun a" and "\<not> isStop a" and "step P opts a st = Some st'"
  shows "queuedOrVisited link st'"
proof (cases "\<exists>k. a = Resume k")
  case True
  then obtain k where a: "a = Resume k"
    by blast
  let ?st0 = "st\<lparr>awaiting := take k (awaiting st) @ drop (Suc k) (awaiting st)\<rparr>"
  from a assms(5) obtain ls st1 where
    pq: "processQueue P opts ?st0 = (ls, st1)" and g: "grown st1 st'"
    using step_Resume_grown by blast
  have "queuedOrVisited link ?st0"
    using assms(2) by (simp add: queuedOrVisited_def)
  then have "queuedOrVisited link st1"
    using assms(1) pq queuedOrVisited_processQueue by blast
  then show ?thesis
    using g by (rule queuedOrVisited_grown)
next
  case False
  then have "grown st st'"
    using assms step_grown by blast
  then show ?thesis
    using assms(2) queuedOrVisited_grown by blast
qed

lemma queuedOrVisited_exec:
  "shouldIgnore P opts link = Inr False \<Longrightarrow> queuedOrVisited link st \<Longrightarrow>
   list_all (\<lambda>a. \<not> isRun a \<and> \<not> isStop a) acts \<Longrightarrow> exec P opts acts st = Some st' \<Longrightarrow>
   queuedOrVisited link st'"
proof (induction acts arbitrary: st)
  case Nil
  then show ?case by simp
next
  case (Cons a acts)
  from Cons.prems(4) obtain st1 where s: "step P opts a st = Some st1"
    and e: "exec P opts acts st1 = Some st'"
    by (auto split: option.splits)
  from Cons.prems(3) have na: "\<not> isRun a" "\<not> isStop a"
    and rest: "list_all (\<lambda>a. \<not> isRun a \<and> \<not> isStop a) acts"
    by simp_all
  have "queuedOrVisited link st1"
    using Cons.prems(1,2) na s by (rule queuedOrVisited_step)
  then show ?case
    using Cons.prems(1) rest e Cons.IH by blast
qed

lemma exec_append:
  "exec P opts (xs @ ys) st =
     (case exec P opts xs st of None \<Rightarrow> None | Some st1 \<Rightarrow> exec P opts ys st1)"
  by (induction xs arbitrary: st) (auto split: option.splits)

lemma count_list_distinct: "distinct xs \<Longrightarrow> x \<in> set xs \<Longrightarrow> count_list xs x = 1"
  by (induction xs) auto

lemma step_TextSettled:
  assumes "step P opts (TextSettled p) s1 = Some s2"
    and "phase (tasks s1 ! p) = ReadingText response"
  shows "s2 = setPhase p Completed
           (afterText P opts (task_url (tasks s1 ! p)) (task_parentUrl (tasks s1 ! p)) response s1)"
  using assms by (auto simp: step_def split: if_splits)

text \<open>
  Two runs on the page with the href twice in which the link is never visited: the run is
  stopped once the page has been read, or the ignore filter matches the link.
\<close>

lemma stopped_run_leaves_link_unvisited:
  "map_option (\<lambda>st. (queue st = [], visited st))
     (exec samplePlatform opts0 (dupPageTrace @ [Stop]) newLinkChecker) =
   Some (True, [''http://a/''])"
  by code_simp

lemma ignored_link_never_visited:
  "map_option (\<lambda>st. (queue st = [], visited st, map linksVisited (returned st)))
     (exec samplePlatform optsIgnoreX
        (dupPageTrace @ [Finally 0, Resume 0, Finish]) newLinkChecker) =
   Some (True, [''http://a/''], [[''http://a/'']])"
  by code_simp

subsection \<open>Checks in flight of a single run\<close>

lemma inFlight_le_active:
  assumes "registered st"
  shows "inFlight st \<le> length (activePromises st)"
proof -
  have "inFlight st = card {i. i < length (tasks st) \<and> busy (phase (tasks st ! i))}"
    by (simp add: inFlight_def length_filter_conv_card)
  also have "\<dots> \<le> card (set (activePromises st))"
  proof (rule card_mono)
    show "finite (set (activePromises st))"
      by simp
    show "{i. i < length (tasks st) \<and> busy (phase (tasks st ! i))} \<subseteq> set (activePromises st)"
      using assms by (auto simp: registered_def)
  qed
  also have "\<dots> \<le> length (activePromises st)"
    by (rule card_length)
  finally show ?thesis .
qed

lemma withinActive_plain: "plain (event em) \<Longrightarrow> withinActive em"
  by (auto simp: withinActive_def plain_def split: Event.splits)

lemma steady_quiet:
  assumes "steady st" and "quiet st st'" and "tasks st' = tasks st"
    and "activePromises st' = activePromises st"
  shows "steady st'"
  using assms
  by (auto simp: steady_def registered_def quiet_def list_all_iff withinActive_plain)

lemma emit_sched [simp]:
  "tasks (emit e st) = tasks st" "activePromises (emit e st) = activePromises st"
  by (simp_all add: emit_def)

lemma emitAll_sched [simp]:
  "tasks (emitAll es st) = tasks st" "activePromises (emitAll es st) = activePromises st"
  by (induction es arbitrary: st) simp_all

lemma pushBroken_sched [simp]:
  "tasks (pushBroken b st) = tasks st" "activePromises (pushBroken b st) = activePromises st"
  by (simp_all add: pushBroken_def)

lemma pushQueue_sched [simp]:
  "tasks (pushQueue item st) = tasks st" "activePromises (pushQueue item st) = activePromises st"
  by (simp_all add: pushQueue_def)

lemma emitProgress_sched [simp]:
  "tasks (emitProgress st) = tasks st" "activePromises (emitProgress st) = activePromises st"
  by (simp_all add: emitProgress_def)

lemma catchBlock_sched [simp]:
  "tasks (catchBlock u parent msg st) = tasks st"
  "activePromises (catchBlock u parent msg st) = activePromises st"
  by (simp_all add: catchBlock_def)

lemma afterFetch_sched [simp]:
  "tasks (snd (afterFetch u parent r res st)) = tasks st"
  "activePromises (snd (afterFetch u parent r res st)) = activePromises st"
  by (simp_all add: afterFetch_def Let_def split: sum.splits)

lemma enqueueLinks_sched [simp]:
  "tasks (snd (enqueueLinks P opts u baseOrigin links st)) = tasks st"
  "activePromises (snd (enqueueLinks P opts u baseOrigin links st)) = activePromises st"
  by (induction links arbitrary: st) (simp_all split: sum.splits)

lemma afterText_sched [simp]:
  "tasks (afterText P opts u parent response st) = tasks st"
  "activePromises (afterText P opts u parent response st) = activePromises st"
proof -
  have "tasks st1 = tasks st \<and> activePromises st1 = activePromises st"
    if "enqueueLinks P opts u bo links st = (r, st1)" for bo links r st1
    using enqueueLinks_sched [of P opts u bo links st] that by simp
  then show "tasks (afterText P opts u parent response st) = tasks st"
    and "activePromises (afterText P opts u parent response st) = activePromises st"
    by (auto simp: afterText_def Let_def split: sum.splits prod.splits option.splits)
qed

lemma steady_setPhase:
  assumes "steady st" and "p \<in> set (activePromises st)"
  shows "steady (setPhase p ph st)"
proof -
  have "registered (setPhase p ph st)"
    unfolding registered_def
  proof (intro allI impI)
    fix q
    assume q: "q < length (tasks (setPhase p ph st))"
      and nf: "phase (tasks (setPhase p ph st) ! q) \<noteq> Finalized"
    show "q \<in> set (activePromises (setPhase p ph st))"
    proof (cases "q = p")
      case True
      then show ?thesis
        using assms(2) by (simp add: setPhase_def)
    next
      case False
      then have "phase (tasks st ! q) \<noteq> Finalized"
        using nf q by (simp add: setPhase_def)
      then show ?thesis
        using assms(1) q by (simp add: steady_def registered_def setPhase_def)
    qed
  qed
  then show ?thesis
    using assms(1) by (simp add: steady_def setPhase_def)
qed

lemma steady_finally:
  assumes "steady st"
  shows "steady (setPhase p Finalized (st\<lparr>activePromises := removeAll p (activePromises st)\<rparr>))"
proof -
  let ?st' = "setPhase p Finalized (st\<lparr>activePromises := removeAll p (activePromises st)\<rparr>)"
  have "registered ?st'"
    unfolding registered_def
  proof (intro allI impI)
    fix q
    assume q: "q < length (tasks ?st')" and nf: "phase (tasks ?st' ! q) \<noteq> Finalized"
    have ne: "q \<noteq> p"
      using q nf by (auto simp: setPhase_def)
    then have "phase (tasks st ! q) \<noteq> Finalized"
      using nf q by (simp add: setPhase_def)
    then have "q \<in> set (activePromises st)"
      using assms q by (simp add: steady_def registered_def setPhase_def)
    then show "q \<in> set (activePromises ?st')"
      using ne by (simp add: setPhase_def)
  qed
  then show ?thesis
    using assms by (simp add: steady_def setPhase_def)
qed

lemma steady_shifted: "steady st \<Longrightarrow> steady (shifted st)"
  by (simp add: steady_def registered_def shifted_def)

lemma steady_beginCheck:
  assumes "steady st"
  shows "steady (beginCheck item (visited_add u st))"
proof -
  have "inFlight (visited_add u st) \<le> length (activePromises (visited_add u st))"
    using assms inFlight_le_active [of st]
    by (simp add: steady_def visited_add_def inFlight_def)
  then show ?thesis
    using assms
    by (auto simp: steady_def registered_def beginCheck_def visited_add_def emit_def Let_def
        withinActive_def nth_append)
qed

lemma steady_innerLoop: "steady st \<Longrightarrow> steady (snd (innerLoop P opts st))"
proof (induction P opts st rule: innerLoop.induct)
  case (1 P opts st)
  have sh: "steady (shifted st)"
    using "1.prems" by (rule steady_shifted)
  show ?case
  proof (cases "isRunning st \<and> queue st \<noteq> [] \<and>
      int (length (activePromises st)) < concurrency opts")
    case False
    then show ?thesis
      using "1.prems" by (simp add: innerLoop_exit)
  next
    case guard: True
    show ?thesis
    proof (cases "item_url (front st) \<in> set (visited st)")
      case True
      then show ?thesis
        using guard sh "1.IH"(1) by (simp add: innerLoop_seen)
    next
      case fresh: False
      show ?thesis
      proof (cases "shouldIgnore P opts (item_url (front st))")
        case (Inl msg)
        then show ?thesis
          using guard fresh sh by (simp add: innerLoop_throws)
      next
        case (Inr ignored)
        show ?thesis
        proof (cases ignored)
          case True
          then show ?thesis
            using guard fresh Inr sh "1.IH"(2) by (simp add: innerLoop_ignored)
        next
          case False
          have "steady (beginCheck (front st) (visited_add (item_url (front st)) (shifted st)))"
            using sh by (rule steady_beginCheck)
          then show ?thesis
            using guard fresh Inr False "1.IH"(3) by (simp add: innerLoop_dispatch)
        qed
      qed
    qed
  qed
qed

lemma steady_processQueue:
  assumes "steady st" and "processQueue P opts st = (ls, st1)"
  shows "steady st1"
proof -
  have "steady (snd (innerLoop P opts st))"
    using assms(1) by (rule steady_innerLoop)
  then show ?thesis
    using assms by (auto simp: processQueue_def split: if_splits prod.splits option.splits)
qed

lemma steady_suspend: "steady st \<Longrightarrow> steady (suspend ls st)"
  by (auto simp: steady_def registered_def suspend_def split: LoopStatus.splits)

lemma steady_first_run:
  assumes "run P opts u newLinkChecker = (r, st1)"
  shows "steady st1"
proof -
  let ?st3 = "pushQueue \<lparr>item_url = u, item_parentUrl = None, isRecursive = True\<rparr>
     (emit (Start u)
       (newLinkChecker\<lparr>visited := [], addCalls := [], brokenLinks := [], queue := [],
           activePromises := [], isRunning := True\<rparr>))"
  have "steady ?st3"
    by (simp add: steady_def registered_def pushQueue_def emit_def newLinkChecker_def
        withinActive_def)
  moreover from assms obtain ls where "processQueue P opts ?st3 = (ls, st1)"
    by (auto simp: run_def Let_def newLinkChecker_def split: prod.splits)
  ultimately show ?thesis
    using steady_processQueue by blast
qed

lemma steady_step:
  assumes "steady st" and "\<not> isRun a" and "step P opts a st = Some st'"
  shows "steady st'"
proof (cases a)
  case (Run u)
  then show ?thesis using assms by simp
next
  case Stop
  then have "st' = stop st"
    using assms(3) by (auto simp: step_def split: if_splits)
  moreover have "tasks (stop st) = tasks st" and "activePromises (stop st) = activePromises st"
    by (simp_all add: stop_def)
  ultimately show ?thesis
    using assms(1) quiet_stop [of st] steady_quiet by blast
next
  case (Resume k)
  let ?st0 = "st\<lparr>awaiting := take k (awaiting st) @ drop (Suc k) (awaiting st)\<rparr>"
  from Resume assms(3) obtain ls st1 where
    pq: "processQueue P opts ?st0 = (ls, st1)" and st': "st' = suspend ls st1"
    by (auto simp: step_def split: if_splits prod.splits)
  have "steady ?st0"
    using assms(1) by (simp add: steady_def registered_def)
  then have "steady st1"
    using pq steady_processQueue by blast
  then show ?thesis
    unfolding st' by (rule steady_suspend)
next
  case Finish
  let ?st0 = "st\<lparr>returning := returning st - 1\<rparr>"
  from Finish assms(3) obtain res where st': "st' = (snd (finishRun ?st0))\<lparr>returned := res\<rparr>"
    by (auto simp: step_def split: if_splits prod.splits)
  have "quiet st st'"
    using Finish assms(3) step_quiet by blast
  moreover have "tasks st' = tasks st" and "activePromises st' = activePromises st"
    unfolding st' by (simp_all add: finishRun_def Let_def)
  ultimately show ?thesis
    using assms(1) steady_quiet by blast
next
  case (FetchSettled p net)
  let ?u = "task_url (tasks st ! p)"
  let ?eff = "snd (fetchLoop opts ?u None net 0 None)"
  let ?res = "fst (fetchLoop opts ?u None net 0 None)"
  let ?out = "afterFetch ?u (task_parentUrl (tasks st ! p)) (task_isRecursive (tasks st ! p))
                ?res (emitAll (notifications ?eff) st)"
  from FetchSettled assms(3) have st': "st' = setPhase p (fst ?out) (snd ?out)"
    and p: "p < length (tasks st)" and ph: "phase (tasks st ! p) = Fetching"
    by (auto simp: step_def fetchWithRetry_def split: if_splits prod.splits)
  have "quiet st (snd ?out)"
    by (intro quiet_afterFetch quiet_emitAll plain_fetchLoop quiet_refl)
  then have "steady (snd ?out)"
    using assms(1) steady_quiet by simp
  moreover have "p \<in> set (activePromises (snd ?out))"
    using assms(1) p ph by (simp add: steady_def registered_def)
  ultimately show ?thesis
    unfolding st' by (rule steady_setPhase)
next
  case (TextSettled p)
  from TextSettled assms(3) obtain response where
    st': "st' = setPhase p Completed
       (afterText P opts (task_url (tasks st ! p)) (task_parentUrl (tasks st ! p)) response st)"
    and p: "p < length (tasks st)" and ph: "phase (tasks st ! p) = ReadingText response"
    by (auto simp: step_def split: if_splits Phase.splits)
  let ?mid = "afterText P opts (task_url (tasks st ! p)) (task_parentUrl (tasks st ! p)) response st"
  have "quiet st ?mid"
    by (intro quiet_afterText quiet_refl)
  then have "steady ?mid"
    using assms(1) steady_quiet by simp
  moreover have "p \<in> set (activePromises ?mid)"
    using assms(1) p ph by (simp add: steady_def registered_def)
  ultimately show ?thesis
    unfolding st' by (rule steady_setPhase)
next
  case (Finally p)
  from Finally assms(3) have
    "st' = setPhase p Finalized (st\<lparr>activePromises := removeAll p (activePromises st)\<rparr>)"
    by (auto simp: step_def split: if_splits)
  then show ?thesis
    using assms(1) steady_finally by simp
qed

lemma steady_exec:
  "steady st \<Longrightarrow> list_all (\<lambda>a. \<not> isRun a) acts \<Longrightarrow> exec P opts acts st = Some st' \<Longrightarrow>
   steady st'"
proof (induction acts arbitrary: st)
  case Nil
  then show ?case by simp
next
  case (Cons a acts)
  from Cons.prems(3) obtain st1 where s: "step P opts a st = Some st1"
    and e: "exec P opts acts st1 = Some st'"
    by (auto split: option.splits)
  from Cons.prems(2) have na: "\<not> isRun a" and rest: "list_all (\<lambda>a. \<not> isRun a) acts"
    by simp_all
  have "steady st1"
    using Cons.prems(1) na s by (rule steady_step)
  then show ?case
    using rest e by (rule Cons.IH)
qed

text \<open>
  On an instance that runs once, no listener of \<open>link:start\<close> sees as many checks in flight
  as the configured concurrency.
\<close>

lemma in_flight_within_concurrency_single_run:
  assumes "exec P opts (Run u # acts) newLinkChecker = Some st"
    and "list_all (\<lambda>a. \<not> isRun a) acts"
    and "em \<in> set (emitted st)" and "event em = LinkStart v q"
  shows "int (inFlightAt em) < concurrency opts"
proof -
  from assms(1) obtain st0 where s0: "step P opts (Run u) newLinkChecker = Some st0"
    and rest: "exec P opts acts st0 = Some st"
    by (auto split: option.splits)
  from s0 obtain r st1 where "run P opts u newLinkChecker = (r, st1)" and "st0 = suspend
      (case r of Inr ls \<Rightarrow> ls | Inl msg \<Rightarrow> Threw msg) st1"
    by (auto simp: step_def suspend_def split: if_splits prod.splits sum.splits)
  then have "steady st0"
    using steady_first_run steady_suspend by metis
  then have "steady st"
    using assms(2) rest steady_exec by blast
  then have "withinActive em"
    using assms(3) by (simp add: steady_def list_all_iff)
  then have "inFlightAt em \<le> activeSize em"
    using assms(4) by (simp add: withinActive_def)
  moreover have "int (activeSize em) < concurrency opts"
    using activePromises_below_concurrency [OF assms(1,3,4)] by simp
  ultimately show ?thesis
    by simp
qed

section \<open>The claims\<close>

text \<open>
  Claim C1. In every state an instance reaches: each \<open>link:start\<close> notification was
  emitted with its URL already in \<open>visited\<close> (the dispatch loop adds the URL in the turn
  that dequeues it, before it calls \<open>checkSingleUrl\<close>); since the last \<open>visited.clear()\<close>,
  that is in the current run, \<open>visited.add\<close> was called at most once for any URL, and
  exactly for the URLs in \<open>visited\<close>; and while \<open>isRunning\<close> holds no turn removes a URL:
  \<open>visited\<close> only grows at its end.
\<close>

theorem visited_before_check:
  assumes "exec P opts acts newLinkChecker = Some st"
  shows "(\<forall>em\<in>set (emitted st). \<forall>u p. event em = LinkStart u p \<longrightarrow> u \<in> set (visitedAt em)) \<and>
         addCalls st = visited st \<and> distinct (addCalls st) \<and>
         (\<forall>a st'. isRunning st \<and> step P opts a st = Some st' \<longrightarrow>
            prefix (visited st) (visited st'))"
proof -
  have g: "good opts st"
    using assms good_exec good_new by blast
  then have "\<forall>em\<in>set (emitted st). okEmission opts em"
    by (simp add: good_def list_all_iff)
  then have "\<forall>em\<in>set (emitted st). \<forall>u p. event em = LinkStart u p \<longrightarrow> u \<in> set (visitedAt em)"
    using okEmission_LinkStart by blast
  moreover have "addCalls st = visited st" and "distinct (addCalls st)"
    using g by (simp_all add: good_def)
  ultimately show ?thesis
    using visited_step by blast
qed

theorem visited_before_check_witness:
  "\<exists>st. exec samplePlatform opts0 dedupTrace newLinkChecker = Some st \<and>
     last (emitted st) \<in> set (emitted st) \<and>
     event (last (emitted st)) = LinkStart ''http://a/x'' (Some ''http://a/'') \<and>
     ''http://a/x'' \<in> set (visitedAt (last (emitted st))) \<and>
     addCalls st = [''http://a/'', ''http://a/x''] \<and> distinct (addCalls st) \<and>
     isRunning st \<and>
     (\<exists>st'. step samplePlatform opts0 (FetchSettled 1 (\<lambda>i. Responded notFound)) st = Some st' \<and>
        prefix (visited st) (visited st'))"
proof -
  have "map_option (\<lambda>st. (emitted st \<noteq> [], event (last (emitted st)), visited st, isRunning st,
          step samplePlatform opts0 (FetchSettled 1 (\<lambda>i. Responded notFound)) st \<noteq> None))
      (exec samplePlatform opts0 dedupTrace newLinkChecker) =
    Some (True, LinkStart ''http://a/x'' (Some ''http://a/''), [''http://a/'', ''http://a/x''],
          True, True)"
    by code_simp
  then obtain st st' where st: "exec samplePlatform opts0 dedupTrace newLinkChecker = Some st"
    and ne: "emitted st \<noteq> []"
    and ev: "event (last (emitted st)) = LinkStart ''http://a/x'' (Some ''http://a/'')"
    and vis: "visited st = [''http://a/'', ''http://a/x'']"
    and run: "isRunning st"
    and nxt: "step samplePlatform opts0 (FetchSettled 1 (\<lambda>i. Responded notFound)) st = Some st'"
    by auto
  have mem: "last (emitted st) \<in> set (emitted st)"
    using ne by simp
  note t = visited_before_check [OF st]
  have a: "''http://a/x'' \<in> set (visitedAt (last (emitted st)))"
    using t mem ev by blast
  have b: "addCalls st = [''http://a/'', ''http://a/x'']"
    using t vis by simp
  have c: "distinct (addCalls st)"
    using t by blast
  have d: "prefix (visited st) (visited st')"
    using t run nxt by blast
  show ?thesis
    using st mem ev a b c run nxt d by blast
qed

text \<open>
  Claim C2, as the code has it. When the body of a recursive item's 2xx HTML response has
  been read, and no library call throws, the links enqueued are the hrefs resolved
  against the URL that was requested (the item's own \<open>url\<close>, not \<open>response.url\<close>), those
  not visited and not ignored, each with the requested URL as parent and with
  \<open>isRecursive\<close> saying whether its origin is the origin of the requested URL.
\<close>

theorem links_resolved_against_requested_url:
  assumes "body response = Inr hrefs" and "originOf P u = Inr bo"
    and "\<forall>link\<in>set (extractLinks P hrefs u). (\<exists>b. shouldIgnore P opts link = Inr b) \<and>
           (\<exists>lo. originOf P link = Inr lo)"
  shows "queue (afterText P opts u parent response st) =
           queue st @
             map (\<lambda>link. \<lparr>item_url = link, item_parentUrl = Some u,
                           isRecursive = (originOf P link = originOf P u)\<rparr>)
               (filter (\<lambda>link. link \<notin> set (visited st) \<and> shouldIgnore P opts link = Inr False)
                  (extractLinks P hrefs u))"
  using afterText_queue [OF assms] assms(2) by simp

theorem links_resolved_against_requested_url_witness:
  "body redirectedPage = Inr [''/p'', ''http://b/q''] \<and>
   originOf samplePlatform ''http://a/'' = Inr ''http://a'' \<and>
   map (\<lambda>item. (item_url item, item_parentUrl item, isRecursive item))
     (queue (afterText samplePlatform opts0 ''http://a/'' None redirectedPage newLinkChecker)) =
     [(''http://a/p'', Some ''http://a/'', True), (''http://b/q'', Some ''http://a/'', False)]"
proof -
  have h1: "body redirectedPage = Inr [''/p'', ''http://b/q'']"
    by (simp add: redirectedPage_def)
  have h2: "originOf samplePlatform ''http://a/'' = Inr ''http://a''"
    by code_simp
  have links: "extractLinks samplePlatform [''/p'', ''http://b/q''] ''http://a/'' =
      [''http://a/p'', ''http://b/q'']"
    by code_simp
  have h3: "\<forall>link\<in>set (extractLinks samplePlatform [''/p'', ''http://b/q''] ''http://a/'').
      (\<exists>b. shouldIgnore samplePlatform opts0 link = Inr b) \<and>
      (\<exists>lo. originOf samplePlatform link = Inr lo)"
    unfolding links by (auto simp: shouldIgnore_def opts0_def samplePlatform_def httpOrigin_def
        startsWith_def)
  have o1: "originOf samplePlatform ''http://a/p'' = Inr ''http://a''"
    by code_simp
  have o2: "originOf samplePlatform ''http://b/q'' = Inr ''http://b''"
    by code_simp
  have i1: "shouldIgnore samplePlatform opts0 ''http://a/p'' = Inr False"
    by (simp add: shouldIgnore_def opts0_def)
  have i2: "shouldIgnore samplePlatform opts0 ''http://b/q'' = Inr False"
    by (simp add: shouldIgnore_def opts0_def)
  show ?thesis
    using h1 h2
      links_resolved_against_requested_url [OF h1 h2 h3, of None newLinkChecker]
    by (simp add: links o1 o2 i1 i2 newLinkChecker_def)
qed

text \<open>
  Claim C2 as stated fails: \<open>http://a/\<close> is requested and the server redirects to
  \<open>http://b/\<close>, whose page links to \<open>/p\<close> and to \<open>http://b/q\<close>. The code enqueues
  \<open>http://a/p\<close> as recursive and \<open>http://b/q\<close> as not recursive; by the claim it would
  enqueue \<open>http://b/p\<close> and \<open>http://b/q\<close>, both recursive.
\<close>

theorem final_url_counterexample:
  "map (\<lambda>item. (item_url item, isRecursive item))
     (queue (afterText samplePlatform opts0 ''http://a/'' None redirectedPage newLinkChecker)) =
     [(''http://a/p'', True), (''http://b/q'', False)] \<and>
   map (\<lambda>item. (item_url item, isRecursive item))
     (specEnqueued samplePlatform opts0 ''http://a/'' redirectedPage newLinkChecker) =
     [(''http://b/p'', True), (''http://b/q'', True)] \<and>
   queue (afterText samplePlatform opts0 ''http://a/'' None redirectedPage newLinkChecker) \<noteq>
     queue newLinkChecker @
       specEnqueued samplePlatform opts0 ''http://a/'' redirectedPage newLinkChecker"
  by code_simp

text \<open>
  Claim C3, as the code has it. When the body of a crawled page has been read and no
  library call throws, a link that extraction yields and the ignore filter does not
  match is enqueued once for every occurrence of its href when it is not yet visited, N
  times for N occurrences, and not at all when it is visited already. Once the queue has
  been emptied by turns among which there is neither \<open>stop()\<close> nor a new \<open>run\<close>, as when
  the run completes, the URL stands exactly once in \<open>visited\<close> and exactly one
  \<open>link:start\<close> was emitted for it in the run. (A run that is stopped may never visit the
  link, \<open>stopped_run_leaves_link_unvisited\<close>, and a link the ignore filter matches is
  never visited, \<open>ignored_link_never_visited\<close>.)
\<close>

theorem duplicates_enqueued_checked_once:
  assumes "exec P opts pre newLinkChecker = Some s1"
    and "step P opts (TextSettled p) s1 = Some s2"
    and "phase (tasks s1 ! p) = ReadingText response" and "body response = Inr hrefs"
    and "originOf P (task_url (tasks s1 ! p)) = Inr bo"
    and "\<forall>l\<in>set (extractLinks P hrefs (task_url (tasks s1 ! p))).
           (\<exists>b. shouldIgnore P opts l = Inr b) \<and> (\<exists>lo. originOf P l = Inr lo)"
    and "link \<in> set (extractLinks P hrefs (task_url (tasks s1 ! p)))"
    and "shouldIgnore P opts link = Inr False"
    and "list_all (\<lambda>a. \<not> isRun a \<and> \<not> isStop a) post"
    and "exec P opts post s2 = Some st" and "queue st = []"
  shows "count_list (map item_url (queue s2)) link =
           count_list (map item_url (queue s1)) link +
           (if link \<in> set (visited s1) then 0
            else count_list (extractLinks P hrefs (task_url (tasks s1 ! p))) link) \<and>
         count_list (visited st) link = 1 \<and>
         count_list (checkedUrls (emitted st)) link = 1"
proof -
  let ?u = "task_url (tasks s1 ! p)"
  let ?links = "extractLinks P hrefs ?u"
  let ?new = "map (\<lambda>link. \<lparr>item_url = link, item_parentUrl = Some ?u,
                             isRecursive = (originOf P link = Inr bo)\<rparr>)
      (filter (\<lambda>link. link \<notin> set (visited s1) \<and> shouldIgnore P opts link = Inr False) ?links)"
  have s2: "s2 = setPhase p Completed
      (afterText P opts ?u (task_parentUrl (tasks s1 ! p)) response s1)"
    using assms(2,3) by (rule step_TextSettled)
  have q2: "queue s2 = queue s1 @ ?new"
    unfolding s2 using afterText_queue [OF assms(4,5,6)] by (simp add: setPhase_def)
  have v2: "visited s2 = visited s1"
    unfolding s2 using quiet_afterText [OF quiet_refl, of s1 P opts] by (simp add: quiet_def)
  have enq: "count_list (map item_url (queue s2)) link =
      count_list (map item_url (queue s1)) link +
      (if link \<in> set (visited s1) then 0 else count_list ?links link)"
    unfolding q2 using assms(8) by (simp add: o_def count_list_filter)
  have "queuedOrVisited link s2"
  proof (cases "link \<in> set (visited s1)")
    case True
    then show ?thesis
      by (simp add: queuedOrVisited_def v2)
  next
    case False
    then have "link \<in> set (map item_url ?new)"
      using assms(7,8) by (simp add: o_def)
    then show ?thesis
      unfolding queuedOrVisited_def q2 by simp
  qed
  then have "queuedOrVisited link st"
    using assms(8,9,10) queuedOrVisited_exec by blast
  then have mem: "link \<in> set (visited st)"
    using assms(11) by (simp add: queuedOrVisited_def)
  have "good opts s1"
    using assms(1) good_exec good_new by blast
  then have "good opts s2"
    using assms(2) good_step by blast
  then have g: "good opts st"
    using assms(10) good_exec by blast
  then have "count_list (visited st) link = 1"
    using mem by (simp add: good_def count_list_distinct)
  moreover have "checkedUrls (emitted st) = visited st"
    using g by (simp add: good_def)
  ultimately show ?thesis
    using enq by simp
qed

theorem duplicates_enqueued_checked_once_witness:
  "\<exists>s1 s2 st.
     exec samplePlatform opts0 dupPagePre newLinkChecker = Some s1 \<and>
     step samplePlatform opts0 (TextSettled 0) s1 = Some s2 \<and>
     phase (tasks s1 ! 0) = ReadingText (htmlPage ''http://a/'' [''/x'', ''/x'']) \<and>
     exec samplePlatform opts0 dupPagePost s2 = Some st \<and> queue st = [] \<and>
     count_list (extractLinks samplePlatform [''/x'', ''/x''] ''http://a/'') ''http://a/x'' = 2 \<and>
     count_list (map item_url (queue s2)) ''http://a/x'' =
       count_list (map item_url (queue s1)) ''http://a/x'' + 2 \<and>
     count_list (visited st) ''http://a/x'' = 1 \<and>
     count_list (checkedUrls (emitted st)) ''http://a/x'' = 1"
proof -
  have "map_option (\<lambda>st. queue st = [])
      (exec samplePlatform opts0 (dupPagePre @ TextSettled 0 # dupPagePost) newLinkChecker) =
    Some True"
    by code_simp
  then obtain st where
    full: "exec samplePlatform opts0 (dupPagePre @ TextSettled 0 # dupPagePost) newLinkChecker
             = Some st"
    and empty: "queue st = []"
    by auto
  from full obtain s1 where s1: "exec samplePlatform opts0 dupPagePre newLinkChecker = Some s1"
    and rest: "exec samplePlatform opts0 (TextSettled 0 # dupPagePost) s1 = Some st"
    by (auto simp: exec_append split: option.splits)
  from rest obtain s2 where s2: "step samplePlatform opts0 (TextSettled 0) s1 = Some s2"
    and post: "exec samplePlatform opts0 dupPagePost s2 = Some st"
    by (auto split: option.splits)
  have "map_option (\<lambda>s. (phase (tasks s ! 0), task_url (tasks s ! 0), visited s))
      (exec samplePlatform opts0 dupPagePre newLinkChecker) =
    Some (ReadingText (htmlPage ''http://a/'' [''/x'', ''/x'']), ''http://a/'', [''http://a/''])"
    by code_simp
  then have ph: "phase (tasks s1 ! 0) = ReadingText (htmlPage ''http://a/'' [''/x'', ''/x''])"
    and u: "task_url (tasks s1 ! 0) = ''http://a/''"
    and vis: "visited s1 = [''http://a/'']"
    using s1 by auto
  have body: "body (htmlPage ''http://a/'' [''/x'', ''/x'']) = Inr [''/x'', ''/x'']"
    by (simp add: htmlPage_def)
  have links: "extractLinks samplePlatform [''/x'', ''/x''] ''http://a/'' =
      [''http://a/x'', ''http://a/x'']"
    by code_simp
  have org: "originOf samplePlatform (task_url (tasks s1 ! 0)) = Inr ''http://a''"
    unfolding u by code_simp
  have nothrow: "\<forall>l\<in>set (extractLinks samplePlatform [''/x'', ''/x''] (task_url (tasks s1 ! 0))).
      (\<exists>b. shouldIgnore samplePlatform opts0 l = Inr b) \<and>
      (\<exists>lo. originOf samplePlatform l = Inr lo)"
    unfolding u links
    by (auto simp: shouldIgnore_def opts0_def samplePlatform_def httpOrigin_def startsWith_def)
  have mem: "''http://a/x'' \<in> set (extractLinks samplePlatform [''/x'', ''/x'']
      (task_url (tasks s1 ! 0)))"
    unfolding u links by simp
  have ign: "shouldIgnore samplePlatform opts0 ''http://a/x'' = Inr False"
    by (simp add: shouldIgnore_def opts0_def)
  have quietPost: "list_all (\<lambda>a. \<not> isRun a \<and> \<not> isStop a) dupPagePost"
    by (simp add: dupPagePost_def)
  have c: "count_list (extractLinks samplePlatform [''/x'', ''/x''] ''http://a/'') ''http://a/x'' = 2"
    unfolding links by simp
  note t = duplicates_enqueued_checked_once
    [OF s1 s2 ph body org nothrow mem ign quietPost post empty]
  have "count_list (map item_url (queue s2)) ''http://a/x'' =
      count_list (map item_url (queue s1)) ''http://a/x'' + 2"
    using t by (simp add: vis u c)
  then show ?thesis
    using s1 s2 ph post empty c t by blast
qed

text \<open>
  Claim C3 as stated fails: after the seed page with the href \<open>/x\<close> twice has been read,
  the queue holds \<open>http://a/x\<close> twice.
\<close>

theorem dedup_counterexample:
  "map_option (\<lambda>st. count_list (map item_url (queue st)) ''http://a/x'')
     (exec samplePlatform opts0 dupPageTrace newLinkChecker) = Some 2"
  by code_simp

text \<open>
  Claim C4 says that whenever \<open>link:start\<close> is emitted the number of checks in flight is
  at most the configured concurrency. What the code keeps below the concurrency is the
  size of \<open>activePromises\<close> (\<open>activePromises_below_concurrency\<close>), and on an instance
  that runs once this bounds the checks in flight
  (\<open>in_flight_within_concurrency_single_run\<close>). But \<open>run\<close> clears \<open>activePromises\<close> while
  the checks of a stopped run are still in flight: on \<open>reuseTrace\<close>, with concurrency 3,
  the listener of \<open>link:start\<close> for \<open>http://b/3\<close> reads 2 as the size of \<open>activePromises\<close>
  while 5 checks are in flight. The values below are the last notification, the size
  read, the checks in flight and the configured concurrency.
\<close>

theorem stale_checks_exceed_concurrency:
  "map_option (\<lambda>st. (event (last (emitted st)), activeSize (last (emitted st)),
                      inFlightAt (last (emitted st)), concurrency opts3))
     (exec samplePlatform opts3 reuseTrace newLinkChecker) =
   Some (LinkStart ''http://b/3'' (Some ''http://b/''), 2, 5, 3)"
  by code_simp

text \<open>
  Claim C5, as the code has it. When \<open>retries\<close> is at least 1 and every attempt throws,
  \<open>fetchWithRetry\<close> makes exactly \<open>retries\<close> attempts with \<open>retries - 1\<close> delays and throws
  the error of the last attempt, and \<open>checkSingleUrl\<close> appends the URL to the broken links
  with the reason \<open>Error:\<close> followed by that message.
\<close>

theorem retry_exhaustion:
  assumes "1 \<le> retries opts"
    and "\<forall>j. int j < retries opts \<longrightarrow> net j = Rejected (msg j)"
  shows "fst (fetchWithRetry opts u None net) = Inl (msg (nat (retries opts - 1))) \<and>
         int (attempts (snd (fetchWithRetry opts u None net))) = retries opts \<and>
         int (delays (snd (fetchWithRetry opts u None net))) = retries opts - 1 \<and>
         brokenLinks (snd (afterFetch u parent isRec (fst (fetchWithRetry opts u None net)) st)) =
           brokenLinks st @
             [\<lparr>url = u, reason = ''Error: '' @ msg (nat (retries opts - 1)), parentUrl = parent\<rparr>]"
proof -
  have "int 0 < retries opts"
    using assms(1) by simp
  from fetchLoop_all_rejected [OF assms(2) this, of u None None]
  show ?thesis
    by (simp add: fetchWithRetry_def afterFetch_def catchBlock_def pushBroken_def emitProgress_def
        emit_def)
qed

theorem retry_exhaustion_witness:
  "1 \<le> retries (opts0\<lparr>retries := 3\<rparr>) \<and>
   failing3 (nat (retries (opts0\<lparr>retries := 3\<rparr>) - 1)) = ''last'' \<and>
   fst (fetchWithRetry (opts0\<lparr>retries := 3\<rparr>) ''http://a/'' None (\<lambda>j. Rejected (failing3 j)))
     = Inl (failing3 (nat (retries (opts0\<lparr>retries := 3\<rparr>) - 1))) \<and>
   int (attempts (snd (fetchWithRetry (opts0\<lparr>retries := 3\<rparr>) ''http://a/'' None
     (\<lambda>j. Rejected (failing3 j))))) = retries (opts0\<lparr>retries := 3\<rparr>) \<and>
   int (delays (snd (fetchWithRetry (opts0\<lparr>retries := 3\<rparr>) ''http://a/'' None
     (\<lambda>j. Rejected (failing3 j))))) = retries (opts0\<lparr>retries := 3\<rparr>) - 1 \<and>
   brokenLinks (snd (afterFetch ''http://a/'' None True
     (fst (fetchWithRetry (opts0\<lparr>retries := 3\<rparr>) ''http://a/'' None (\<lambda>j. Rejected (failing3 j))))
     newLinkChecker)) =
     brokenLinks newLinkChecker @
       [\<lparr>url = ''http://a/'',
         reason = ''Error: '' @ failing3 (nat (retries (opts0\<lparr>retries := 3\<rparr>) - 1)),
         parentUrl = None\<rparr>]"
proof -
  have h1: "1 \<le> retries (opts0\<lparr>retries := 3\<rparr>)"
    by simp
  have h2: "\<forall>j. int j < retries (opts0\<lparr>retries := 3\<rparr>) \<longrightarrow>
      (\<lambda>j. Rejected (failing3 j)) j = Rejected (failing3 j)"
    by simp
  have m: "failing3 (nat (retries (opts0\<lparr>retries := 3\<rparr>) - 1)) = ''last''"
    by (simp add: failing3_def)
  show ?thesis
    using h1 m retry_exhaustion [OF h1 h2, of "''http://a/''" None True newLinkChecker]
    by blast
qed

text \<open>
  Claim C5 as stated fails when \<open>retries\<close> is 0: no attempt is made, the number of delays
  is 0 and not \<open>retries - 1\<close>, and the error carries no attempt's message.
\<close>

theorem retry_exhaustion_counterexample:
  "fst (fetchWithRetry (opts0\<lparr>retries := 0\<rparr>) ''http://a/'' None (\<lambda>j. Rejected ''boom''))
     = Inl ''Failed after multiple retries'' \<and>
   attempts (snd (fetchWithRetry (opts0\<lparr>retries := 0\<rparr>) ''http://a/'' None
     (\<lambda>j. Rejected ''boom''))) = 0 \<and>
   int (delays (snd (fetchWithRetry (opts0\<lparr>retries := 0\<rparr>) ''http://a/'' None
     (\<lambda>j. Rejected ''boom'')))) \<noteq> retries (opts0\<lparr>retries := 0\<rparr>) - 1"
  by (simp add: fetchWithRetry_def fetchLoop_exhausted)

text \<open>
  Claim C6 says that \<open>fetchWithRetry\<close> makes at least one attempt for every value of
  \<open>retries\<close>. The code does not: when \<open>retries\<close> is 0 or less the loop body never runs, no
  attempt is made and the call throws \<open>Failed after multiple retries\<close>.
\<close>

theorem no_attempt_without_retries:
  assumes "retries opts \<le> 0"
  shows "fetchWithRetry opts u parent net = (Inl ''Failed after multiple retries'', []) \<and>
         attempts (snd (fetchWithRetry opts u parent net)) = 0"
  using assms by (simp add: fetchWithRetry_def fetchLoop_exhausted)

theorem no_attempt_without_retries_witness:
  "retries (opts0\<lparr>retries := 0\<rparr>) \<le> 0 \<and>
   fetchWithRetry (opts0\<lparr>retries := 0\<rparr>) ''http://a/'' None (\<lambda>i. Responded (plainOk ''http://a/''))
     = (Inl ''Failed after multiple retries'', []) \<and>
   attempts (snd (fetchWithRetry (opts0\<lparr>retries := 0\<rparr>) ''http://a/'' None
     (\<lambda>i. Responded (plainOk ''http://a/'')))) = 0"
proof -
  have h: "retries (opts0\<lparr>retries := 0\<rparr>) \<le> 0"
    by simp
  show ?thesis
    using h no_attempt_without_retries [OF h] by simp
qed

text \<open>
  Claim C7. When an attempt of \<open>fetchWithRetry\<close> ends with a response whose status is
  outside [200, 300), the call returns it at once: no further attempt, no delay. Then,
  if the response's \<open>redirected\<close> flag is set, \<open>link:redirect\<close> is emitted with the
  response's final URL and the broken links are unchanged; otherwise \<open>link:error\<close> is
  emitted and one broken link is appended, with the reason \<open>Status code:\<close> followed by
  the status in decimal. In both cases the check ends with \<open>progress\<close>.
\<close>

theorem non_2xx_response:
  assumes "int i < retries opts" and "net i = Responded r"
    and "\<not> (200 \<le> status r \<and> status r < 300)"
  shows "fetchLoop opts u fparent net i le = (Inr r, [Attempt i]) \<and>
         fst (afterFetch u parent isRec (Inr r) st) = Completed \<and>
         (if redirected r then
            brokenLinks (snd (afterFetch u parent isRec (Inr r) st)) = brokenLinks st \<and>
            map event (emitted (snd (afterFetch u parent isRec (Inr r) st))) =
              map event (emitted st) @
                [LinkRedirect u (final_url r) parent,
                 Progress (length (visited st)) (length (brokenLinks st))]
          else
            brokenLinks (snd (afterFetch u parent isRec (Inr r) st)) =
              brokenLinks st @
                [\<lparr>url = u, reason = ''Status code: '' @ numberToString (status r),
                  parentUrl = parent\<rparr>] \<and>
            map event (emitted (snd (afterFetch u parent isRec (Inr r) st))) =
              map event (emitted st) @
                [LinkError u (Some (status r)) None parent,
                 Progress (length (visited st)) (Suc (length (brokenLinks st)))])"
  using assms
  by (auto simp: fetchLoop_responded afterFetch_def Let_def pushBroken_def emitProgress_def
      emit_def)

theorem non_2xx_response_witness:
  "int 0 < retries opts0 \<and> \<not> (200 \<le> status notFound \<and> status notFound < 300) \<and>
   fetchLoop opts0 ''http://a/'' None (\<lambda>i. Responded notFound) 0 None
     = (Inr notFound, [Attempt 0]) \<and>
   brokenLinks (snd (afterFetch ''http://a/'' None True (Inr notFound) newLinkChecker)) =
     [\<lparr>url = ''http://a/'', reason = ''Status code: 404'', parentUrl = None\<rparr>]"
proof -
  have h1: "int 0 < retries opts0"
    by (simp add: opts0_def)
  have h2: "(\<lambda>i::nat. Responded notFound) 0 = Responded notFound"
    by simp
  have h3: "\<not> (200 \<le> status notFound \<and> status notFound < 300)"
    by (simp add: notFound_def)
  have n: "numberToString (status notFound) = ''404''"
    by code_simp
  have nr: "\<not> redirected notFound"
    by (simp add: notFound_def)
  show ?thesis
    using h1 h3 non_2xx_response [OF h1 h2 h3, of "''http://a/''" None None None True newLinkChecker]
    by (simp add: n nr newLinkChecker_def)
qed

text \<open>
  Claim C8. \<open>run\<close> on an instance whose \<open>isRunning\<close> is true throws at once and leaves the
  instance as it was: no field changes and nothing is emitted.
\<close>

theorem run_while_running:
  assumes "isRunning st"
  shows "run P opts u st =
           (Inl ''Link checker is already running. Call stop() first or create a new instance.'',
            st) \<and>
         (if spinning st then step P opts (Run u) st = None
          else step P opts (Run u) st = Some st)"
  using assms by (simp add: run_def step_def)

theorem run_while_running_witness:
  "isRunning (snd (run samplePlatform opts0 ''http://a/'' newLinkChecker)) \<and>
   run samplePlatform opts0 ''http://b/'' (snd (run samplePlatform opts0 ''http://a/'' newLinkChecker)) =
     (Inl ''Link checker is already running. Call stop() first or create a new instance.'',
      snd (run samplePlatform opts0 ''http://a/'' newLinkChecker))"
proof -
  have h: "isRunning (snd (run samplePlatform opts0 ''http://a/'' newLinkChecker))"
    by code_simp
  show ?thesis
    using h run_while_running [OF h, of samplePlatform opts0 "''http://b/''"] by simp
qed

text \<open>
  Claim C9 says that \<open>extractLinks\<close> only lets URLs of scheme http or https through. The
  code tests \<open>resolvedUrl.startsWith("http")\<close>, so an href such as \<open>httpx://h/x\<close>, which
  the URL constructor resolves to itself, is accepted although its scheme is \<open>httpx\<close>.
  (What the code does guarantee is \<open>extractLinks_sound\<close>.)
\<close>

theorem extractLinks_accepts_http_prefix:
  assumes "resolveHref P ''httpx://h/x'' base = Some ''httpx://h/x''"
  shows "extractLinks P [''httpx://h/x''] base = [''httpx://h/x'']"
  using assms
  by (simp add: extractLinks_def resolveOne_def startsWith_def List.map_filter_simps)

theorem extractLinks_accepts_http_prefix_witness:
  "resolveHref samplePlatform ''httpx://h/x'' ''http://a/'' = Some ''httpx://h/x'' \<and>
   extractLinks samplePlatform [''httpx://h/x''] ''http://a/'' = [''httpx://h/x'']"
proof -
  have h: "resolveHref samplePlatform ''httpx://h/x'' ''http://a/'' = Some ''httpx://h/x''"
    by (simp add: samplePlatform_def)
  show ?thesis
    using h extractLinks_accepts_http_prefix [OF h] by simp
qed

text \<open>
  Claim C10 says that every URL among the broken links at the end of a run is visited.
  It holds on an instance that runs once (\<open>broken_subset_visited_single_run\<close>), and
  fails on \<open>staleTrace\<close>: the check of \<open>http://a/y\<close>, started by the first run, fails
  after the second run has cleared \<open>visited\<close> and replaced \<open>brokenLinks\<close>, and the second
  run returns \<open>http://b/\<close> as its only visited link with \<open>http://a/y\<close> as a broken link.
  The two values below are what the two calls of \<open>run\<close> resolved with.
\<close>

theorem stale_check_breaks_subset:
  "map_option (\<lambda>st. map (\<lambda>r. (linksVisited r, map url (result_brokenLinks r))) (returned st))
     (exec samplePlatform opts0 staleTrace newLinkChecker) =
   Some [([''http://a/'', ''http://a/x'', ''http://a/y''], []),
         ([''http://b/''], [''http://a/y''])]"
  by code_simp

end
